theory Spec2Isabelle
  imports Main "HOL-Library.Sublist"
begin

section \<open>Data model of \<^verbatim>\<open>perf-test.js\<close>\<close>

text \<open>
  The script is a sequence of outbound HTTP calls. Its JSON payloads are modelled by the
  shape the script reads from them:
  \<^item> a directory record \<^verbatim>\<open>{userId}\<close>, as the members API returns it and as \<^verbatim>\<open>main\<close>
    generates it;
  \<^item> a member of a bulk-add request, \<^verbatim>\<open>{memberId, membershipType}\<close>;
  \<^item> an entry of a bulk-add response, of which the script reads \<^verbatim>\<open>status\<close>;
  \<^item> a group, of which the script reads \<^verbatim>\<open>id\<close>;
  \<^item> an axios response, of which the script reads \<^verbatim>\<open>status\<close> and \<^verbatim>\<open>data\<close>.
  Counts and clock readings are JavaScript numbers holding integers; they are \<open>int\<close> here
  (a count that \<^verbatim>\<open>parseInt\<close> could not read runs no iteration, as a count of 0 does).
  Calls of the logger are left out: they are taken to return, and nothing the script does
  depends on them.
\<close>

record user =
  userId :: string

record member =
  memberId :: string
  membershipType :: string

record entry =
  entry_memberId :: string
  entry_status :: string

record bulk =
  bulk_members :: "entry list"

record group =
  group_id :: string

record 'a response =
  status :: int
  data :: 'a

text \<open>
  Every \<^verbatim>\<open>throw\<close> of the script is a constructor. \<open>Rejected\<close> is the rejection of an
  awaited external promise (axios on a transport error or on a status outside 2xx, the
  token helper). \<open>FailedToAddSome\<close> is the aggregate error of \<^verbatim>\<open>addMembers\<close>: an
  \<^verbatim>\<open>Error\<close> holds nothing but its message, so the constructor carries the message, as the
  template string of the \<^verbatim>\<open>throw\<close> builds it. The other constructors tell which
  \<^verbatim>\<open>throw\<close> ended the run, with the values at hand there.
\<close>

datatype error =
    Rejected string
  | MissingConfig string
  | HealthCheckFailed "unit response"
  | FailedToCreate group
  | FailedToPatch string group
  | FailedToDelete string group
  | FailedToAddBulk string bulk
  | ExceedsLimit int
  | FailedToAddSome string

text \<open>The requests the script issues, with the bearer token as last argument.\<close>

datatype request =
    GET_health string
  | GET_members int int string
  | POST_groups string string
  | PATCH_group string string string
  | DELETE_group string string
  | POST_members string "member list" string

datatype reply =
    Threw error
  | Health "unit response"
  | Users "user list response"
  | Group "group response"
  | Bulk "bulk response"

text \<open>
  What a run does to the outside: the requests with their replies, the readings of the
  clock and the pauses, in order.
\<close>

datatype event =
    Http request reply
  | Time int
  | Sleep int

record 'w sys =
  world :: 'w
  trace :: "event list"

text \<open>
  The collaborators of the script: the configuration, the token helper, the sources of
  randomness, the clock and one oracle for each endpoint. Each oracle reads and updates
  the state \<open>'w\<close> of the outside world, so an answer may depend on everything that
  happened before.
\<close>

record 'w env =
  AUTH0_CLIENT_ID :: "string option"
  AUTH0_CLIENT_SECRET :: "string option"
  INITIAL_MEMBER_SIZE :: int
  getM2Mtoken :: "'w \<Rightarrow> (error + string) \<times> 'w"
  random :: "'w \<Rightarrow> nat \<times> 'w"
  uuid_v4 :: "'w \<Rightarrow> string \<times> 'w"
  getTime :: "'w \<Rightarrow> int \<times> 'w"
  get_health :: "string \<Rightarrow> 'w \<Rightarrow> (error + unit response) \<times> 'w"
  get_members :: "int \<Rightarrow> int \<Rightarrow> string \<Rightarrow> 'w \<Rightarrow> (error + user list response) \<times> 'w"
  post_groups :: "string \<Rightarrow> string \<Rightarrow> 'w \<Rightarrow> (error + group response) \<times> 'w"
  patch_group :: "string \<Rightarrow> string \<Rightarrow> string \<Rightarrow> 'w \<Rightarrow> (error + group response) \<times> 'w"
  delete_group :: "string \<Rightarrow> string \<Rightarrow> 'w \<Rightarrow> (error + group response) \<times> 'w"
  post_members :: "string \<Rightarrow> member list \<Rightarrow> string \<Rightarrow> 'w \<Rightarrow> (error + bulk response) \<times> 'w"

section \<open>Effects\<close>

definition emit :: "event \<Rightarrow> 'w sys \<Rightarrow> 'w sys" where
  "emit e s = s\<lparr>trace := trace s @ [e]\<rparr>"

definition axios :: "('w \<Rightarrow> (error + 'a response) \<times> 'w) \<Rightarrow> request \<Rightarrow> ('a response \<Rightarrow> reply)
    \<Rightarrow> 'w sys \<Rightarrow> (error + 'a response) \<times> 'w sys" where
  "axios oracle rq wrap s =
     (case oracle (world s) of
        (r, w) \<Rightarrow> (r, emit (Http rq (case r of Inl e \<Rightarrow> Threw e | Inr resp \<Rightarrow> wrap resp))
                        (s\<lparr>world := w\<rparr>)))"

definition now :: "'w env \<Rightarrow> 'w sys \<Rightarrow> int \<times> 'w sys" where
  "now env s = (case getTime env (world s) of (t, w) \<Rightarrow> (t, emit (Time t) (s\<lparr>world := w\<rparr>)))"

definition sleep :: "int \<Rightarrow> 'w sys \<Rightarrow> 'w sys" where
  "sleep ms s = emit (Sleep ms) s"

section \<open>The directory reader\<close>

definition getMembers :: "'w env \<Rightarrow> int \<Rightarrow> int \<Rightarrow> string \<Rightarrow> 'w sys \<Rightarrow> (error + user list) \<times> 'w sys" where
  "getMembers env page pageSize accessToken s =
     (case axios (get_members env page pageSize accessToken)
             (GET_members page pageSize accessToken) Users s of
        (Inl e, s') \<Rightarrow> (Inl e, s')
      | (Inr resp, s') \<Rightarrow> (Inr (data resp), s'))"

definition maxPageSize :: int where
  "maxPageSize = 100"

text \<open>
  One iteration of the \<^verbatim>\<open>while\<close> loop of \<^verbatim>\<open>getNMembers\<close>, on its variables
  \<^verbatim>\<open>members\<close> and \<^verbatim>\<open>page\<close>: the error that leaves the loop, or the variables after
  the iteration.
\<close>

definition getNMembers_body ::
  "'w env \<Rightarrow> int \<Rightarrow> string \<Rightarrow> user list \<Rightarrow> int \<Rightarrow> 'w sys \<Rightarrow> (error + user list \<times> int) \<times> 'w sys" where
  "getNMembers_body env n accessToken members page s =
     (let diff = n - int (length members) in
      if diff \<le> maxPageSize then
        (case getMembers env page diff accessToken s of
           (Inl e, s') \<Rightarrow> (Inl e, s')
         | (Inr got, s') \<Rightarrow> (Inr (members @ got, page), sleep 100 s'))
      else
        (case getMembers env page maxPageSize accessToken s of
           (Inl e, s') \<Rightarrow> (Inl e, s')
         | (Inr got, s') \<Rightarrow> (Inr (members @ got, page + 1), sleep 100 s')))"

text \<open>
  Nothing bounds the number of iterations, so the loop is a partial function: \<open>None\<close>
  is a run that never returns.
\<close>

partial_function (option) getNMembers_loop ::
  "'w env \<Rightarrow> int \<Rightarrow> string \<Rightarrow> user list \<Rightarrow> int \<Rightarrow> 'w sys \<Rightarrow> ((error + user list) \<times> 'w sys) option" where
  "getNMembers_loop env n accessToken members page s =
     (if int (length members) < n then
        (case getNMembers_body env n accessToken members page s of
           (Inl e, s') \<Rightarrow> Some (Inl e, s')
         | (Inr (members', page'), s') \<Rightarrow> getNMembers_loop env n accessToken members' page' s')
      else Some (Inr members, s))"

definition getNMembers :: "'w env \<Rightarrow> int \<Rightarrow> string \<Rightarrow> 'w sys \<Rightarrow> ((error + user list) \<times> 'w sys) option" where
  "getNMembers env n accessToken s = getNMembers_loop env n accessToken [] 1 s"

text \<open>
  The state of a run of the loop after at most \<open>k\<close> iterations: what a run has done so
  far, also when it never returns.
\<close>

fun getNMembers_upto ::
  "nat \<Rightarrow> 'w env \<Rightarrow> int \<Rightarrow> string \<Rightarrow> user list \<Rightarrow> int \<Rightarrow> 'w sys \<Rightarrow> 'w sys" where
  "getNMembers_upto 0 env n accessToken members page s = s"
| "getNMembers_upto (Suc k) env n accessToken members page s =
     (if int (length members) < n then
        (case getNMembers_body env n accessToken members page s of
           (Inl e, s') \<Rightarrow> s'
         | (Inr (members', page'), s') \<Rightarrow> getNMembers_upto k env n accessToken members' page' s')
      else s)"

text \<open>
  The variables of the loop and the state of the run after \<open>k\<close> iterations, when the loop
  is still going on then (\<open>None\<close> when it has ended before).
\<close>

fun getNMembers_at ::
  "nat \<Rightarrow> 'w env \<Rightarrow> int \<Rightarrow> string \<Rightarrow> user list \<Rightarrow> int \<Rightarrow> 'w sys \<Rightarrow> (user list \<times> int \<times> 'w sys) option" where
  "getNMembers_at 0 env n accessToken members page s = Some (members, page, s)"
| "getNMembers_at (Suc k) env n accessToken members page s =
     (if int (length members) < n then
        (case getNMembers_body env n accessToken members page s of
           (Inl e, s') \<Rightarrow> None
         | (Inr (members', page'), s') \<Rightarrow> getNMembers_at k env n accessToken members' page' s')
      else None)"

section \<open>The group lifecycle\<close>

definition groupApiHealthCheck :: "'w env \<Rightarrow> string \<Rightarrow> 'w sys \<Rightarrow> (error + unit) \<times> 'w sys" where
  "groupApiHealthCheck env accessToken s =
     (case axios (get_health env accessToken) (GET_health accessToken) Health s of
        (Inl e, s') \<Rightarrow> (Inl e, s')
      | (Inr resp, s') \<Rightarrow>
          if status resp \<noteq> 200 then (Inl (HealthCheckFailed resp), s') else (Inr (), s'))"

definition uuid :: "'w env \<Rightarrow> 'w sys \<Rightarrow> string \<times> 'w sys" where
  "uuid env s = (case uuid_v4 env (world s) of (u, w) \<Rightarrow> (u, s\<lparr>world := w\<rparr>))"

definition patchTestGroup :: "'w env \<Rightarrow> string \<Rightarrow> string \<Rightarrow> 'w sys \<Rightarrow> (error + unit) \<times> 'w sys" where
  "patchTestGroup env groupId accessToken s =
     (case uuid env s of
        (oldId, s0) \<Rightarrow>
          (case axios (patch_group env groupId oldId accessToken)
                  (PATCH_group groupId oldId accessToken) Group s0 of
             (Inl e, s') \<Rightarrow> (Inl e, s')
           | (Inr resp, s') \<Rightarrow>
               if status resp \<noteq> 200 then (Inl (FailedToPatch groupId (data resp)), s')
               else (Inr (), s')))"

definition createTestGroup :: "'w env \<Rightarrow> string \<Rightarrow> 'w sys \<Rightarrow> (error + string) \<times> 'w sys" where
  "createTestGroup env accessToken s =
     (case uuid env s of
        (u, s0) \<Rightarrow>
          (case axios (post_groups env (''TestGroup-'' @ u) accessToken)
                  (POST_groups (''TestGroup-'' @ u) accessToken) Group s0 of
             (Inl e, s1) \<Rightarrow> (Inl e, s1)
           | (Inr resp, s1) \<Rightarrow>
               if status resp \<noteq> 200 then (Inl (FailedToCreate (data resp)), s1)
               else
                 (case patchTestGroup env (group_id (data resp)) accessToken s1 of
                    (Inl e, s2) \<Rightarrow> (Inl e, s2)
                  | (Inr _, s2) \<Rightarrow> (Inr (group_id (data resp)), s2))))"

definition deleteTestGroup :: "'w env \<Rightarrow> string \<Rightarrow> string \<Rightarrow> 'w sys \<Rightarrow> (error + group) \<times> 'w sys" where
  "deleteTestGroup env groupId accessToken s =
     (case axios (delete_group env groupId accessToken)
             (DELETE_group groupId accessToken) Group s of
        (Inl e, s') \<Rightarrow> (Inl e, s')
      | (Inr resp, s') \<Rightarrow>
          if status resp \<noteq> 200 then (Inl (FailedToDelete groupId (data resp)), s')
          else (Inr (data resp), s'))"

section \<open>The bulk membership adder\<close>

definition chunkSize :: nat where
  "chunkSize = 100"

text \<open>\<^verbatim>\<open>Array.prototype.slice(i, j)\<close> for indices \<open>0 \<le> i \<le> j\<close>.\<close>

definition slice :: "'a list \<Rightarrow> nat \<Rightarrow> nat \<Rightarrow> 'a list" where
  "slice xs i j = take (j - i) (drop i xs)"

definition failed :: "entry \<Rightarrow> bool" where
  "failed m = (entry_status m = ''failed'')"

text \<open>\<^verbatim>\<open>Array.prototype.join\<close>, on strings.\<close>

fun join :: "string \<Rightarrow> string list \<Rightarrow> string" where
  "join sep [] = []"
| "join sep [x] = x"
| "join sep (x # y # ys) = x @ sep @ join sep (y # ys)"

text \<open>
  An array of plain objects inside a template string: the array is converted by
  \<^verbatim>\<open>Array.prototype.toString\<close>, which joins with commas what \<^verbatim>\<open>toString\<close> makes of each
  element, and that is \<^verbatim>\<open>[object Object]\<close> for every plain object, whatever its fields.
\<close>

definition array_string :: "'a list \<Rightarrow> string" where
  "array_string xs = join '','' (map (\<lambda>x. ''[object Object]'') xs)"

text \<open>
  One iteration of the \<^verbatim>\<open>for\<close> loop of \<^verbatim>\<open>addMembers\<close>, at index \<^verbatim>\<open>i\<close>: the error it
  throws, if any, and the array \<^verbatim>\<open>result\<close> as the iteration leaves it.
\<close>

definition addMembers_body ::
  "'w env \<Rightarrow> string \<Rightarrow> member list \<Rightarrow> string \<Rightarrow> nat \<Rightarrow> entry list \<Rightarrow> 'w sys
     \<Rightarrow> (error option \<times> entry list) \<times> 'w sys" where
  "addMembers_body env groupId members accessToken i result s =
     (let chunk = slice members i (i + chunkSize) in
      case now env s of
        (st, s1) \<Rightarrow>
          (case axios (post_members env groupId chunk accessToken)
                  (POST_members groupId chunk accessToken) Bulk s1 of
             (Inl e, s2) \<Rightarrow> ((Some e, result), s2)
           | (Inr resp, s2) \<Rightarrow>
               if status resp \<noteq> 200
               then ((Some (FailedToAddBulk groupId (data resp)), result), s2)
               else
                 (case now env s2 of
                    (et, s3) \<Rightarrow>
                      if et - st > 30000
                      then ((Some (ExceedsLimit (et - st)), result), s3)
                      else if list_ex failed (bulk_members (data resp))
                      then ((Some (FailedToAddSome (''Failed to add some members: '' @
                                array_string (filter failed (bulk_members (data resp))))),
                             result), s3)
                      else ((None, result @ bulk_members (data resp)), s3))))"

text \<open>
  The loop gives back the error that left it, if any, and \<^verbatim>\<open>result\<close> as the loop left
  it.
\<close>

function addMembers_loop ::
  "'w env \<Rightarrow> string \<Rightarrow> member list \<Rightarrow> string \<Rightarrow> nat \<Rightarrow> entry list \<Rightarrow> 'w sys
     \<Rightarrow> (error option \<times> entry list) \<times> 'w sys" where
  "addMembers_loop env groupId members accessToken i result s =
     (if i < length members then
        (case addMembers_body env groupId members accessToken i result s of
           ((Some e, result'), s') \<Rightarrow> ((Some e, result'), s')
         | ((None, result'), s') \<Rightarrow>
             addMembers_loop env groupId members accessToken (i + chunkSize) result' s')
      else ((None, result), s))"
  by pat_completeness auto
termination
  by (relation "measure (\<lambda>(env, groupId, members, accessToken, i, result, s). length members - i)")
     (auto simp: chunkSize_def)

declare addMembers_loop.simps [simp del]

definition addMembers :: "'w env \<Rightarrow> string \<Rightarrow> member list \<Rightarrow> string \<Rightarrow> 'w sys
    \<Rightarrow> (error + entry list) \<times> 'w sys" where
  "addMembers env groupId members accessToken s =
     (case addMembers_loop env groupId members accessToken 0 [] s of
        ((Some e, result), s') \<Rightarrow> (Inl e, s')
      | ((None, result), s') \<Rightarrow> (Inr result, s'))"

section \<open>The script\<close>

text \<open>The decimal digits of a number, as a template string renders it.\<close>

fun decimal :: "nat \<Rightarrow> string" where
  "decimal n =
     (if n < 10 then [''0123456789'' ! n] else decimal (n div 10) @ [''0123456789'' ! (n mod 10)])"

declare decimal.simps [simp del]

text \<open>The loop of \<^verbatim>\<open>main\<close> that fills \<^verbatim>\<open>members\<close>, counting the iterations left.\<close>

fun generate :: "'w env \<Rightarrow> nat \<Rightarrow> user list \<Rightarrow> 'w sys \<Rightarrow> user list \<times> 'w sys" where
  "generate env 0 members s = (members, s)"
| "generate env (Suc k) members s =
     (case random env (world s) of
        (r, w) \<Rightarrow> generate env k (members @ [\<lparr>userId = decimal r\<rparr>]) (s\<lparr>world := w\<rparr>))"

definition missing :: "string option \<Rightarrow> bool" where
  "missing c = (c = None \<or> c = Some [])"

definition token :: "'w env \<Rightarrow> 'w sys \<Rightarrow> (error + string) \<times> 'w sys" where
  "token env s = (case getM2Mtoken env (world s) of (r, w) \<Rightarrow> (r, s\<lparr>world := w\<rparr>))"

text \<open>The \<^verbatim>\<open>try\<close> block of \<^verbatim>\<open>main\<close>.\<close>

definition main_try :: "'w env \<Rightarrow> string \<Rightarrow> user list \<Rightarrow> string \<Rightarrow> 'w sys \<Rightarrow> (error + unit) \<times> 'w sys" where
  "main_try env groupId members accessToken s =
     (case now env s of
        (st, s1) \<Rightarrow>
          (case addMembers env groupId
                  (map (\<lambda>member. \<lparr>memberId = userId member, membershipType = ''user''\<rparr>) members)
                  accessToken s1 of
             (Inl e, s2) \<Rightarrow> (Inl e, s2)
           | (Inr resp, s2) \<Rightarrow> (case now env s2 of (et, s3) \<Rightarrow> (Inr (), s3))))"

text \<open>
  \<^verbatim>\<open>try { ... } finally { await deleteTestGroup(groupId, accessToken) }\<close>: the deletion
  runs whatever the block did, and an error of the deletion replaces the block's.
\<close>

definition main_finally :: "'w env \<Rightarrow> string \<Rightarrow> string \<Rightarrow> (error + unit) \<times> 'w sys \<Rightarrow> (error + unit) \<times> 'w sys" where
  "main_finally env groupId accessToken r =
     (case r of
        (outcome, s) \<Rightarrow>
          (case deleteTestGroup env groupId accessToken s of
             (Inl e, s') \<Rightarrow> (Inl e, s')
           | (Inr _, s') \<Rightarrow> (outcome, s')))"

definition main :: "'w env \<Rightarrow> 'w sys \<Rightarrow> (error + unit) \<times> 'w sys" where
  "main env s =
     (if missing (AUTH0_CLIENT_ID env) then (Inl (MissingConfig ''AUTH0_CLIENT_ID''), s)
      else if missing (AUTH0_CLIENT_SECRET env) then (Inl (MissingConfig ''AUTH0_CLIENT_SECRET''), s)
      else
        (case token env s of
           (Inl e, s1) \<Rightarrow> (Inl e, s1)
         | (Inr accessToken, s1) \<Rightarrow>
             (case generate env (nat (INITIAL_MEMBER_SIZE env)) [] s1 of
                (members, s2) \<Rightarrow>
                  (case groupApiHealthCheck env accessToken s2 of
                     (Inl e, s3) \<Rightarrow> (Inl e, s3)
                   | (Inr _, s3) \<Rightarrow>
                       (case createTestGroup env accessToken s3 of
                          (Inl e, s4) \<Rightarrow> (Inl e, s4)
                        | (Inr groupId, s4) \<Rightarrow>
                            main_finally env groupId accessToken
                              (main_try env groupId members accessToken s4))))))"

text \<open>A run starts in some state of the world, with nothing done yet.\<close>

definition start :: "'w \<Rightarrow> 'w sys" where
  "start w = \<lparr>world = w, trace = []\<rparr>"

section \<open>Reading a trace\<close>

text \<open>The events between two states of one run.\<close>

definition since :: "'w sys \<Rightarrow> 'w sys \<Rightarrow> event list" where
  "since s s' = drop (length (trace s)) (trace s')"

fun perPage_of :: "event \<Rightarrow> int list" where
  "perPage_of (Http (GET_members page perPage accessToken) r) = [perPage]"
| "perPage_of e = []"

text \<open>The \<^verbatim>\<open>perPage\<close> parameters of the page requests of a trace, in order.\<close>

definition perPages :: "event list \<Rightarrow> int list" where
  "perPages evs = concat (map perPage_of evs)"

fun chunk_of :: "event \<Rightarrow> member list list" where
  "chunk_of (Http (POST_members groupId chunk accessToken) r) = [chunk]"
| "chunk_of e = []"

text \<open>The chunks of the bulk-add requests of a trace, in order.\<close>

definition chunks :: "event list \<Rightarrow> member list list" where
  "chunks evs = concat (map chunk_of evs)"

fun added_of :: "event \<Rightarrow> entry list" where
  "added_of (Http rq (Bulk resp)) = bulk_members (data resp)"
| "added_of e = []"

text \<open>The \<^verbatim>\<open>members\<close> arrays of the bulk-add responses of a trace, concatenated in order.\<close>

definition added :: "event list \<Rightarrow> entry list" where
  "added evs = concat (map added_of evs)"

fun fetched_of :: "event \<Rightarrow> user list" where
  "fetched_of (Http rq (Users resp)) = data resp"
| "fetched_of e = []"

text \<open>The records of the page responses of a trace, concatenated in order.\<close>

definition fetched :: "event list \<Rightarrow> user list" where
  "fetched evs = concat (map fetched_of evs)"

fun request_of :: "event \<Rightarrow> request list" where
  "request_of (Http rq r) = [rq]"
| "request_of e = []"

text \<open>The requests of a trace, in order.\<close>

definition requests :: "event list \<Rightarrow> request list" where
  "requests evs = concat (map request_of evs)"

section \<open>Assumptions on the directory\<close>

text \<open>
  What a claim may assume of the members API, over the page sizes the reader asks for
  (1 to 100): every page has exactly the size asked for; every page that arrives has at
  least one record; or every page arrives empty.
\<close>

definition exact_pages :: "'w env \<Rightarrow> bool" where
  "exact_pages env =
     (\<forall>page perPage accessToken w. 1 \<le> perPage \<and> perPage \<le> 100 \<longrightarrow>
        (\<exists>resp w'. get_members env page perPage accessToken w = (Inr resp, w')
           \<and> int (length (data resp)) = perPage))"

definition nonempty_pages :: "'w env \<Rightarrow> bool" where
  "nonempty_pages env =
     (\<forall>page perPage accessToken w resp w'. 1 \<le> perPage \<and> perPage \<le> 100 \<longrightarrow>
        get_members env page perPage accessToken w = (Inr resp, w') \<longrightarrow> data resp \<noteq> [])"

definition empty_pages :: "'w env \<Rightarrow> bool" where
  "empty_pages env =
     (\<forall>page perPage accessToken w.
        \<exists>resp w'. get_members env page perPage accessToken w = (Inr resp, w') \<and> data resp = [])"

text \<open>
  The loop is starved at a page, with \<open>diff\<close> records still to get, when every request it
  can go on to make from there is answered with an empty page, whenever it is made: the
  same page again when \<open>diff \<le> 100\<close> (the page number then stays), that page and every
  later one otherwise; the size asked for is \<open>min diff 100\<close> as long as nothing arrives.
\<close>

definition starved :: "'w env \<Rightarrow> string \<Rightarrow> int \<Rightarrow> int \<Rightarrow> bool" where
  "starved env accessToken page diff =
     (\<forall>p w. p = page \<or> (100 < diff \<and> page \<le> p) \<longrightarrow>
        (\<exists>resp w'. get_members env p (min diff 100) accessToken w = (Inr resp, w')
           \<and> data resp = []))"

section \<open>Concrete collaborators\<close>

text \<open>
  Environments to run the script in. The world is a counter of the clock readings. In
  \<open>quiet\<close> every service answers 200, the directory serves pages of the size asked for,
  every member is accepted and a reading of the clock takes a millisecond.
\<close>

definition accepted :: "member \<Rightarrow> entry" where
  "accepted m = \<lparr>entry_memberId = memberId m, entry_status = ''success''\<rparr>"

definition quiet :: "nat env" where
  "quiet = \<lparr>
     AUTH0_CLIENT_ID = Some ''id'',
     AUTH0_CLIENT_SECRET = Some ''secret'',
     INITIAL_MEMBER_SIZE = 2,
     getM2Mtoken = (\<lambda>w. (Inr ''t'', w)),
     random = (\<lambda>w. (12345678, w)),
     uuid_v4 = (\<lambda>w. (''u'', w)),
     getTime = (\<lambda>w. (int w, Suc w)),
     get_health = (\<lambda>accessToken w. (Inr \<lparr>status = 200, data = ()\<rparr>, w)),
     get_members = (\<lambda>page perPage accessToken w.
       (Inr \<lparr>status = 200, data = replicate (nat perPage) \<lparr>userId = ''7''\<rparr>\<rparr>, w)),
     post_groups = (\<lambda>name accessToken w. (Inr \<lparr>status = 200, data = \<lparr>group_id = ''g''\<rparr>\<rparr>, w)),
     patch_group = (\<lambda>groupId oldId accessToken w.
       (Inr \<lparr>status = 200, data = \<lparr>group_id = groupId\<rparr>\<rparr>, w)),
     delete_group = (\<lambda>groupId accessToken w.
       (Inr \<lparr>status = 200, data = \<lparr>group_id = groupId\<rparr>\<rparr>, w)),
     post_members = (\<lambda>groupId chunk accessToken w.
       (Inr \<lparr>status = 200, data = \<lparr>bulk_members = map accepted chunk\<rparr>\<rparr>, w))\<rparr>"

definition slow :: "nat env" where
  "slow = quiet\<lparr>getTime := (\<lambda>w. (40000 * int w, Suc w))\<rparr>"

definition alice :: member where
  "alice = \<lparr>memberId = ''1'', membershipType = ''user''\<rparr>"

definition declined :: "member \<Rightarrow> entry" where
  "declined m = \<lparr>entry_memberId = memberId m, entry_status = ''failed''\<rparr>"

definition bob :: member where
  "bob = \<lparr>memberId = ''2'', membershipType = ''user''\<rparr>"

definition picky :: "nat env" where
  "picky = quiet\<lparr>post_members := (\<lambda>groupId chunk accessToken w.
     (Inr \<lparr>status = 200,
           data = \<lparr>bulk_members =
             map (\<lambda>m. if memberId m = ''1'' then accepted m else declined m) chunk\<rparr>\<rparr>, w))\<rparr>"

definition slow_picky :: "nat env" where
  "slow_picky = picky\<lparr>getTime := (\<lambda>w. (40000 * int w, Suc w))\<rparr>"

definition refusing :: "nat \<Rightarrow> nat env" where
  "refusing k = quiet\<lparr>post_members := (\<lambda>groupId chunk accessToken w.
     (Inr \<lparr>status = (if w < k then 200 else 201),
           data = \<lparr>bulk_members = map accepted chunk\<rparr>\<rparr>, w))\<rparr>"

text \<open>
  A directory that has no records, a directory whose first answer only is empty (its
  world counts the pages served), a service whose PATCH fails, and the member that
  \<^verbatim>\<open>main\<close> generates in these environments.
\<close>

definition barren :: "nat env" where
  "barren = quiet\<lparr>get_members := (\<lambda>page perPage accessToken w.
     (Inr \<lparr>status = 200, data = []\<rparr>, w))\<rparr>"

definition hesitant :: "nat env" where
  "hesitant = quiet\<lparr>get_members := (\<lambda>page perPage accessToken w.
     (Inr \<lparr>status = 200,
           data = (if w = 0 then [] else replicate (nat perPage) \<lparr>userId = ''7''\<rparr>)\<rparr>, Suc w))\<rparr>"

text \<open>
  A directory of the members 0, 1, 2, ... paged in the usual way (page \<open>p\<close> of size \<open>k\<close>
  holds the members from \<open>(p - 1) * k\<close> on), and a directory that serves its first page
  and answers every later page with no record.
\<close>

definition paged :: "nat env" where
  "paged = quiet\<lparr>get_members := (\<lambda>page perPage accessToken w.
     (Inr \<lparr>status = 200,
           data = map (\<lambda>i. \<lparr>userId = decimal i\<rparr>)
             [nat ((page - 1) * perPage)..<nat ((page - 1) * perPage) + nat perPage]\<rparr>, w))\<rparr>"

definition short :: "nat env" where
  "short = quiet\<lparr>get_members := (\<lambda>page perPage accessToken w.
     (Inr \<lparr>status = 200,
           data = (if page = 1 then replicate (nat perPage) \<lparr>userId = ''7''\<rparr> else [])\<rparr>, w))\<rparr>"

definition unpatched :: "nat env" where
  "unpatched = quiet\<lparr>patch_group := (\<lambda>groupId oldId accessToken w.
     (Inl (Rejected ''Request failed with status code 500''), w))\<rparr>"

definition carol :: member where
  "carol = \<lparr>memberId = ''12345678'', membershipType = ''user''\<rparr>"

section \<open>The bulk membership adder: runs and traces\<close>

lemma start_simps [simp]: "trace (start w) = []" "world (start w) = w"
  by (simp_all add: start_def)

lemma now_trace: "now env s = (t, s') \<Longrightarrow> trace s' = trace s @ [Time t]"
  by (auto simp: now_def emit_def split: prod.splits)

lemma axios_trace:
  "axios f rq wrap s = (r, s') \<Longrightarrow>
   trace s' = trace s @ [Http rq (case r of Inl e \<Rightarrow> Threw e | Inr resp \<Rightarrow> wrap resp)]"
  by (auto simp: axios_def emit_def split: prod.splits)

lemma since_append: "trace s' = trace s @ evs \<Longrightarrow> since s s' = evs"
  by (simp add: since_def)

text \<open>The five ways through one iteration, with what each adds to the trace.\<close>

lemma addMembers_body_cases:
  assumes "addMembers_body env groupId members accessToken i result s = ((err, result'), s')"
  obtains
    (rejected) st e where
      "err = Some e" "result' = result"
      "trace s' = trace s @ [Time st,
         Http (POST_members groupId (slice members i (i + chunkSize)) accessToken) (Threw e)]"
  | (refused) st resp where
      "status resp \<noteq> 200" "err = Some (FailedToAddBulk groupId (data resp))" "result' = result"
      "trace s' = trace s @ [Time st,
         Http (POST_members groupId (slice members i (i + chunkSize)) accessToken) (Bulk resp)]"
  | (slow) st resp et where
      "status resp = 200" "et - st > 30000" "err = Some (ExceedsLimit (et - st))" "result' = result"
      "trace s' = trace s @ [Time st,
         Http (POST_members groupId (slice members i (i + chunkSize)) accessToken) (Bulk resp),
         Time et]"
  | (partly) st resp et where
      "status resp = 200" "et - st \<le> 30000" "list_ex failed (bulk_members (data resp))"
      "err = Some (FailedToAddSome (''Failed to add some members: '' @
         array_string (filter failed (bulk_members (data resp)))))" "result' = result"
      "trace s' = trace s @ [Time st,
         Http (POST_members groupId (slice members i (i + chunkSize)) accessToken) (Bulk resp),
         Time et]"
  | (pushed) st resp et where
      "status resp = 200" "et - st \<le> 30000" "\<not> list_ex failed (bulk_members (data resp))"
      "err = None" "result' = result @ bulk_members (data resp)"
      "trace s' = trace s @ [Time st,
         Http (POST_members groupId (slice members i (i + chunkSize)) accessToken) (Bulk resp),
         Time et]"
proof -
  obtain st s1 where n1: "now env s = (st, s1)" by (cases "now env s")
  let ?chunk = "slice members i (i + chunkSize)"
  obtain r s2 where ax: "axios (post_members env groupId ?chunk accessToken)
      (POST_members groupId ?chunk accessToken) Bulk s1 = (r, s2)"
    by (cases "axios (post_members env groupId ?chunk accessToken)
      (POST_members groupId ?chunk accessToken) Bulk s1")
  obtain et s3 where n2: "now env s2 = (et, s3)" by (cases "now env s2")
  note t1 = now_trace [OF n1] and t2 = axios_trace [OF ax] and t3 = now_trace [OF n2]
  show thesis
  proof (cases r)
    case (Inl e)
    with assms n1 ax t1 t2 show thesis
      by (intro rejected [of e st]) (auto simp: addMembers_body_def)
  next
    case (Inr resp)
    show thesis
    proof (cases "status resp \<noteq> 200")
      case True
      with Inr assms n1 ax t1 t2 show thesis
        by (intro refused [of resp st]) (auto simp: addMembers_body_def)
    next
      case ok: False
      show thesis
      proof (cases "et - st > 30000")
        case True
        with ok Inr assms n1 ax n2 t1 t2 t3 show thesis
          by (intro slow [of resp et st]) (auto simp: addMembers_body_def)
      next
        case fast: False
        show thesis
        proof (cases "list_ex failed (bulk_members (data resp))")
          case True
          with fast ok Inr assms n1 ax n2 t1 t2 t3 show thesis
            by (intro partly [of resp et st]) (auto simp: addMembers_body_def)
        next
          case False
          with fast ok Inr assms n1 ax n2 t1 t2 t3 show thesis
            by (intro pushed [of resp et st]) (auto simp: addMembers_body_def)
        qed
      qed
    qed
  qed
qed

lemma added_simps [simp]:
  "added [] = []" "added (e # evs) = added_of e @ added evs" "added (xs @ ys) = added xs @ added ys"
  by (simp_all add: added_def)

lemma chunks_simps [simp]:
  "chunks [] = []" "chunks (e # evs) = chunk_of e @ chunks evs" "chunks (xs @ ys) = chunks xs @ chunks ys"
  by (simp_all add: chunks_def)

text \<open>The events of a run of the loop: it only adds to the trace, and starts by reading the clock.\<close>

lemma addMembers_loop_trace:
  "addMembers_loop env groupId members accessToken i result s = (r, s') \<Longrightarrow>
   \<exists>evs. trace s' = trace s @ evs \<and> (evs = [] \<or> (\<exists>t evs'. evs = Time t # evs'))"
proof (induction env groupId members accessToken i result s rule: addMembers_loop.induct)
  case (1 env groupId members accessToken i result s)
  show ?case
  proof (cases "i < length members")
    case False
    with "1.prems" show ?thesis by (simp add: addMembers_loop.simps)
  next
    case True
    obtain err result1 s1 where
      body: "addMembers_body env groupId members accessToken i result s = ((err, result1), s1)"
      by (metis surj_pair)
    from body obtain t evs1 where t1: "trace s1 = trace s @ Time t # evs1"
      by (cases rule: addMembers_body_cases) auto
    show ?thesis
    proof (cases err)
      case (Some e)
      with True body "1.prems" have "s' = s1" by (simp add: addMembers_loop.simps)
      with t1 show ?thesis by simp
    next
      case None
      with True body "1.prems" have
        "addMembers_loop env groupId members accessToken (i + chunkSize) result1 s1 = (r, s')"
        by (simp add: addMembers_loop.simps)
      with "1.IH" [OF True body [symmetric] refl None] obtain evs where "trace s' = trace s1 @ evs"
        by blast
      with t1 show ?thesis by simp
    qed
  qed
qed

text \<open>Where a part of a trace can begin, when the trace starts with three known events.\<close>

lemma split_three:
  assumes "a # b # c # evs = pre @ ys"
  shows "pre = [] \<and> ys = a # b # c # evs \<or> pre = [a] \<and> ys = b # c # evs \<or> pre = [a, b] \<and> ys = c # evs
    \<or> (\<exists>pre'. pre = a # b # c # pre' \<and> evs = pre' @ ys)"
proof (cases pre)
  case Nil
  with assms show ?thesis by simp
next
  case p1: (Cons x1 pre1)
  show ?thesis
  proof (cases pre1)
    case Nil
    with p1 assms show ?thesis by simp
  next
    case p2: (Cons x2 pre2)
    show ?thesis
    proof (cases pre2)
      case Nil
      with p1 p2 assms show ?thesis by simp
    next
      case (Cons x3 pre3)
      with p1 p2 assms show ?thesis by simp
    qed
  qed
qed

text \<open>The three ways through one unfolding of the loop.\<close>

lemma addMembers_loop_cases:
  assumes "addMembers_loop env groupId members accessToken i result s = ((err, result'), s')"
  obtains
    (exit) "\<not> i < length members" "err = None" "result' = result" "s' = s"
  | (abort) e where "i < length members" "err = Some e"
      "addMembers_body env groupId members accessToken i result s = ((Some e, result'), s')"
  | (continue) result1 s1 where "i < length members"
      "addMembers_body env groupId members accessToken i result s = ((None, result1), s1)"
      "addMembers_loop env groupId members accessToken (i + chunkSize) result1 s1 = ((err, result'), s')"
proof (cases "i < length members")
  case False
  with assms exit show thesis by (simp add: addMembers_loop.simps)
next
  case True
  obtain err1 result1 s1 where
    body: "addMembers_body env groupId members accessToken i result s = ((err1, result1), s1)"
    by (metis surj_pair)
  show thesis
  proof (cases err1)
    case None
    with True body assms continue show thesis by (simp add: addMembers_loop.simps)
  next
    case (Some e)
    with True body assms abort [of e] show thesis by (simp add: addMembers_loop.simps)
  qed
qed

text \<open>A round trip measured above the limit is the last thing a run does.\<close>

lemma addMembers_loop_slow:
  assumes "addMembers_loop env groupId members accessToken i result s = ((err, result'), s')"
    and "trace s' = trace s @ pre @ Time st # Http rq rp # Time et # post"
    and "et - st > 30000"
  shows "post = [] \<and> err = Some (ExceedsLimit (et - st))"
  using assms
proof (induction env groupId members accessToken i result s arbitrary: pre
    rule: addMembers_loop.induct)
  case (1 env groupId members accessToken i result s)
  from "1.prems"(1) show ?case
  proof (cases rule: addMembers_loop_cases)
    case exit
    with "1.prems"(2) show ?thesis by simp
  next
    case (abort e)
    from abort(3) "1.prems"(2,3) abort(2) show ?thesis
      by (cases rule: addMembers_body_cases) (auto simp: Cons_eq_append_conv)
  next
    case (continue result1 s1)
    from addMembers_loop_trace [OF continue(3)] obtain evs where
      evs: "trace s' = trace s1 @ evs" "evs = [] \<or> (\<exists>t evs'. evs = Time t # evs')"
      by blast
    from continue(2) obtain st1 resp1 et1 where
      ok: "et1 - st1 \<le> 30000"
        "trace s1 = trace s @ [Time st1,
          Http (POST_members groupId (slice members i (i + chunkSize)) accessToken) (Bulk resp1),
          Time et1]"
      by (cases rule: addMembers_body_cases) auto
    let ?h = "Http (POST_members groupId (slice members i (i + chunkSize)) accessToken) (Bulk resp1)"
    from evs(1) ok(2) "1.prems"(2) have
      "Time st1 # ?h # Time et1 # evs = pre @ Time st # Http rq rp # Time et # post"
      by simp
    from split_three [OF this] ok(1) "1.prems"(3) evs(2) obtain pre' where
      "evs = pre' @ Time st # Http rq rp # Time et # post"
      by auto
    with evs(1) have "trace s' = trace s1 @ pre' @ Time st # Http rq rp # Time et # post"
      by simp
    from "1.IH" [OF continue(1) continue(2) [symmetric] refl refl continue(3) this "1.prems"(3)]
    show ?thesis .
  qed
qed

lemma requests_simps [simp]:
  "requests [] = []" "requests (e # evs) = request_of e @ requests evs"
  "requests (xs @ ys) = requests xs @ requests ys"
  by (simp_all add: requests_def)

lemma split_one:
  assumes "a # b # c # evs = pre @ y # post"
  shows "pre = [] \<and> y = a \<or> pre = [a] \<and> y = b \<and> post = c # evs \<or> pre = [a, b] \<and> y = c
    \<or> (\<exists>pre'. pre = a # b # c # pre' \<and> evs = pre' @ y # post)"
  using split_three [OF assms] by auto

text \<open>A loop that ends without an error has collected the members of all its responses.\<close>

lemma addMembers_loop_result:
  assumes "addMembers_loop env groupId members accessToken i result s = ((None, result'), s')"
  shows "\<exists>evs. trace s' = trace s @ evs \<and> result' = result @ added evs
    \<and> \<not> list_ex failed (added evs)"
  using assms
proof (induction env groupId members accessToken i result s rule: addMembers_loop.induct)
  case (1 env groupId members accessToken i result s)
  from "1.prems" show ?case
  proof (cases rule: addMembers_loop_cases)
    case exit
    then show ?thesis by simp
  next
    case (abort e)
    then show ?thesis by simp
  next
    case (continue result1 s1)
    from "1.IH" [OF continue(1) continue(2) [symmetric] refl refl continue(3)] obtain evs where
      evs: "trace s' = trace s1 @ evs" "result' = result1 @ added evs" "\<not> list_ex failed (added evs)"
      by blast
    from continue(2) evs show ?thesis
      by (cases rule: addMembers_body_cases) (auto simp: list_ex_iff)
  qed
qed

text \<open>A response that fails the status check is the last event of the loop.\<close>

lemma addMembers_loop_refused:
  assumes "addMembers_loop env groupId members accessToken i result s = ((err, result'), s')"
    and "trace s' = trace s @ pre @ Http rq (Bulk resp) # post"
    and "status resp \<noteq> 200"
  shows "post = [] \<and> err = Some (FailedToAddBulk groupId (data resp)) \<and> result' = result @ added pre"
  using assms
proof (induction env groupId members accessToken i result s arbitrary: pre
    rule: addMembers_loop.induct)
  case (1 env groupId members accessToken i result s)
  from "1.prems"(1) show ?case
  proof (cases rule: addMembers_loop_cases)
    case exit
    with "1.prems"(2) show ?thesis by simp
  next
    case (abort e)
    from abort(3) "1.prems"(2,3) abort(2) show ?thesis
      by (cases rule: addMembers_body_cases) (auto simp: Cons_eq_append_conv)
  next
    case (continue result1 s1)
    from addMembers_loop_trace [OF continue(3)] obtain evs where
      evs: "trace s' = trace s1 @ evs" "evs = [] \<or> (\<exists>t evs'. evs = Time t # evs')"
      by blast
    from continue(2) obtain st1 resp1 et1 where
      ok: "status resp1 = 200" "result1 = result @ bulk_members (data resp1)"
        "trace s1 = trace s @ [Time st1,
          Http (POST_members groupId (slice members i (i + chunkSize)) accessToken) (Bulk resp1),
          Time et1]"
      by (cases rule: addMembers_body_cases) auto
    let ?h = "Http (POST_members groupId (slice members i (i + chunkSize)) accessToken) (Bulk resp1)"
    from evs(1) ok(3) "1.prems"(2) have
      "Time st1 # ?h # Time et1 # evs = pre @ Http rq (Bulk resp) # post"
      by simp
    from split_one [OF this] ok(1) "1.prems"(3) obtain pre' where
      pre': "pre = Time st1 # ?h # Time et1 # pre'" "evs = pre' @ Http rq (Bulk resp) # post"
      by auto
    with evs(1) have "trace s' = trace s1 @ pre' @ Http rq (Bulk resp) # post"
      by simp
    from "1.IH" [OF continue(1) continue(2) [symmetric] refl refl continue(3) this "1.prems"(3)]
      pre'(1) ok(2)
    show ?thesis by simp
  qed
qed

text \<open>So is a request that is rejected.\<close>

lemma addMembers_loop_rejected:
  assumes "addMembers_loop env groupId members accessToken i result s = ((err, result'), s')"
    and "trace s' = trace s @ pre @ Http rq (Threw e) # post"
  shows "post = [] \<and> err = Some e \<and> result' = result @ added pre"
  using assms
proof (induction env groupId members accessToken i result s arbitrary: pre
    rule: addMembers_loop.induct)
  case (1 env groupId members accessToken i result s)
  from "1.prems"(1) show ?case
  proof (cases rule: addMembers_loop_cases)
    case exit
    with "1.prems"(2) show ?thesis by simp
  next
    case (abort e')
    from abort(3) "1.prems"(2) abort(2) show ?thesis
      by (cases rule: addMembers_body_cases) (auto simp: Cons_eq_append_conv)
  next
    case (continue result1 s1)
    from addMembers_loop_trace [OF continue(3)] obtain evs where
      evs: "trace s' = trace s1 @ evs" "evs = [] \<or> (\<exists>t evs'. evs = Time t # evs')"
      by blast
    from continue(2) obtain st1 resp1 et1 where
      ok: "result1 = result @ bulk_members (data resp1)"
        "trace s1 = trace s @ [Time st1,
          Http (POST_members groupId (slice members i (i + chunkSize)) accessToken) (Bulk resp1),
          Time et1]"
      by (cases rule: addMembers_body_cases) auto
    let ?h = "Http (POST_members groupId (slice members i (i + chunkSize)) accessToken) (Bulk resp1)"
    from evs(1) ok(2) "1.prems"(2) have
      "Time st1 # ?h # Time et1 # evs = pre @ Http rq (Threw e) # post"
      by simp
    from split_one [OF this] obtain pre' where
      pre': "pre = Time st1 # ?h # Time et1 # pre'" "evs = pre' @ Http rq (Threw e) # post"
      by auto
    with evs(1) have "trace s' = trace s1 @ pre' @ Http rq (Threw e) # post"
      by simp
    from "1.IH" [OF continue(1) continue(2) [symmetric] refl refl continue(3) this]
      pre'(1) ok(1)
    show ?thesis by simp
  qed
qed

text \<open>A response in time with a failed entry is followed by the second clock reading only.\<close>

lemma addMembers_loop_partly:
  assumes "addMembers_loop env groupId members accessToken i result s = ((err, result'), s')"
    and "trace s' = trace s @ pre @ Time st # Http rq (Bulk resp) # Time et # post"
    and "et - st \<le> 30000"
    and "list_ex failed (bulk_members (data resp))"
  shows "post = [] \<and> status resp = 200
    \<and> err = Some (FailedToAddSome (''Failed to add some members: '' @
          array_string (filter failed (bulk_members (data resp)))))"
  using assms
proof (induction env groupId members accessToken i result s arbitrary: pre
    rule: addMembers_loop.induct)
  case (1 env groupId members accessToken i result s)
  from "1.prems"(1) show ?case
  proof (cases rule: addMembers_loop_cases)
    case exit
    with "1.prems"(2) show ?thesis by simp
  next
    case (abort e)
    from abort(3) "1.prems"(2,3,4) abort(2) show ?thesis
      by (cases rule: addMembers_body_cases) (auto simp: Cons_eq_append_conv)
  next
    case (continue result1 s1)
    from addMembers_loop_trace [OF continue(3)] obtain evs where
      evs: "trace s' = trace s1 @ evs" "evs = [] \<or> (\<exists>t evs'. evs = Time t # evs')"
      by blast
    from continue(2) obtain st1 resp1 et1 where
      ok: "\<not> list_ex failed (bulk_members (data resp1))"
        "trace s1 = trace s @ [Time st1,
          Http (POST_members groupId (slice members i (i + chunkSize)) accessToken) (Bulk resp1),
          Time et1]"
      by (cases rule: addMembers_body_cases) auto
    let ?h = "Http (POST_members groupId (slice members i (i + chunkSize)) accessToken) (Bulk resp1)"
    from evs(1) ok(2) "1.prems"(2) have
      "Time st1 # ?h # Time et1 # evs = pre @ Time st # Http rq (Bulk resp) # Time et # post"
      by simp
    from split_three [OF this] ok(1) "1.prems"(4) evs(2) obtain pre' where
      "evs = pre' @ Time st # Http rq (Bulk resp) # Time et # post"
      by auto
    with evs(1) have "trace s' = trace s1 @ pre' @ Time st # Http rq (Bulk resp) # Time et # post"
      by simp
    from "1.IH" [OF continue(1) continue(2) [symmetric] refl refl continue(3) this "1.prems"(3,4)]
    show ?thesis .
  qed
qed

lemma addMembers_body_chunk:
  assumes "addMembers_body env groupId members accessToken i result s = ((err, result'), s')"
  shows "\<exists>evs. trace s' = trace s @ evs \<and> chunks evs = [slice members i (i + chunkSize)]
    \<and> requests evs = [POST_members groupId (slice members i (i + chunkSize)) accessToken]"
  using assms by (cases rule: addMembers_body_cases) auto

lemma prefix_take_step:
  assumes "prefix ys (drop (i + k) xs)"
  shows "prefix (take k (drop i xs) @ ys) (drop i xs)"
proof -
  from assms obtain zs where zs: "drop (i + k) xs = ys @ zs"
    by (auto elim: prefixE)
  have "drop i xs = take k (drop i xs) @ drop k (drop i xs)"
    by (rule append_take_drop_id [symmetric])
  also have "drop k (drop i xs) = ys @ zs"
    using zs by (simp add: add.commute)
  finally have "drop i xs = (take k (drop i xs) @ ys) @ zs"
    by simp
  then show ?thesis
    by (rule prefixI)
qed

lemma take_drop_step: "take k (drop i xs) @ drop (i + k) xs = drop i xs"
proof -
  have "drop (i + k) xs = drop k (drop i xs)"
    by (simp add: add.commute)
  then show ?thesis
    by (simp only: append_take_drop_id)
qed

lemma ceil_step:
  assumes "i < m"
  shows "(m - i + 99) div 100 = Suc ((m - (i + 100) + 99) div (100::nat))"
proof (cases "m - i < 100")
  case True
  with assms have "100 * 1 \<le> m - i + 99" "m - i + 99 < 100 * Suc 1"
    by simp_all
  then have "(m - i + 99) div 100 = 1"
    by (rule div_nat_eqI)
  with True show ?thesis
    by simp
next
  case False
  then have "m - i + 99 = (m - (i + 100) + 99) + 100"
    by simp
  then show ?thesis
    by (simp only: div_add_self2)
qed

text \<open>The chunks of the loop from index \<open>i\<close> on.\<close>

lemma addMembers_loop_chunks:
  assumes "addMembers_loop env groupId members accessToken i result s = ((err, result'), s')"
  shows "\<exists>evs. trace s' = trace s @ evs
    \<and> requests evs = map (\<lambda>c. POST_members groupId c accessToken) (chunks evs)
    \<and> (\<forall>c \<in> set (chunks evs). length c \<le> 100)
    \<and> prefix (concat (chunks evs)) (drop i members)
    \<and> length (chunks evs) \<le> (length members - i + 99) div 100
    \<and> (err = None \<longrightarrow> concat (chunks evs) = drop i members
          \<and> length (chunks evs) = (length members - i + 99) div 100)"
  using assms
proof (induction env groupId members accessToken i result s rule: addMembers_loop.induct)
  case (1 env groupId members accessToken i result s)
  from "1.prems" show ?case
  proof (cases rule: addMembers_loop_cases)
    case exit
    then show ?thesis by simp
  next
    case (abort e)
    from addMembers_body_chunk [OF abort(3)] obtain evs where
      evs: "trace s' = trace s @ evs" "chunks evs = [slice members i (i + chunkSize)]"
        "requests evs = [POST_members groupId (slice members i (i + chunkSize)) accessToken]"
      by blast
    have "(1::nat) \<le> (length members - i + 99) div 100"
      using abort(1) by arith
    with evs abort(2) show ?thesis
      by (intro exI [of _ evs]) (simp add: slice_def chunkSize_def take_is_prefix)
  next
    case (continue result1 s1)
    from addMembers_body_chunk [OF continue(2)] obtain evs1 where
      evs1: "trace s1 = trace s @ evs1" "chunks evs1 = [slice members i (i + chunkSize)]"
        "requests evs1 = [POST_members groupId (slice members i (i + chunkSize)) accessToken]"
      by blast
    from "1.IH" [OF continue(1) continue(2) [symmetric] refl refl continue(3)] obtain evs where
      evs: "trace s' = trace s1 @ evs"
        "requests evs = map (\<lambda>c. POST_members groupId c accessToken) (chunks evs)"
        "\<forall>c \<in> set (chunks evs). length c \<le> 100"
        "prefix (concat (chunks evs)) (drop (i + chunkSize) members)"
        "length (chunks evs) \<le> (length members - (i + chunkSize) + 99) div 100"
        "err = None \<longrightarrow> concat (chunks evs) = drop (i + chunkSize) members
          \<and> length (chunks evs) = (length members - (i + chunkSize) + 99) div 100"
      by blast
    define c0 where "c0 = (length members - i + 99) div 100"
    define c1 where "c1 = (length members - (i + chunkSize) + 99) div 100"
    have step: "c0 = Suc c1"
      unfolding c0_def c1_def chunkSize_def by (rule ceil_step [OF continue(1)])
    have len: "length (chunks (evs1 @ evs)) = Suc (length (chunks evs))"
      using evs1(2) by simp
    have tr: "trace s' = trace s @ evs1 @ evs"
      using evs1(1) evs(1) by simp
    have one: "requests (evs1 @ evs) =
        map (\<lambda>c. POST_members groupId c accessToken) (chunks (evs1 @ evs))"
      using evs1(2,3) evs(2) by simp
    have small: "\<forall>c \<in> set (chunks (evs1 @ evs)). length c \<le> 100"
      using evs1(2) evs(3) by (simp add: slice_def chunkSize_def)
    have cat: "concat (chunks (evs1 @ evs)) = take chunkSize (drop i members) @ concat (chunks evs)"
      using evs1(2) by (simp add: slice_def)
    have pre: "prefix (concat (chunks (evs1 @ evs))) (drop i members)"
      unfolding cat using evs(4) by (rule prefix_take_step)
    have most: "length (chunks (evs1 @ evs)) \<le> c0"
      using evs(5) unfolding len step c1_def by simp
    have "err = None \<longrightarrow> concat (chunks (evs1 @ evs)) = drop i members"
      unfolding cat using evs(6) take_drop_step [of chunkSize i members] by (simp del: drop_drop)
    moreover have "err = None \<longrightarrow> length (chunks (evs1 @ evs)) = c0"
      using evs(6) unfolding len step c1_def by simp
    ultimately have all: "err = None \<longrightarrow> concat (chunks (evs1 @ evs)) = drop i members
        \<and> length (chunks (evs1 @ evs)) = c0"
      by simp
    show ?thesis
      using tr one small pre most all unfolding c0_def
      by (intro exI [of _ "evs1 @ evs"] conjI)
  qed
qed

lemma failed_simps [simp]: "\<not> failed (accepted m)" "failed (declined m)"
  by (simp_all add: failed_def accepted_def declined_def)

lemmas run_simps = addMembers_def addMembers_loop.simps addMembers_body_def now_def axios_def
  emit_def start_def slice_def chunkSize_def Let_def list_ex_iff array_string_def

lemma addMembers_trace:
  assumes "addMembers env groupId members accessToken s = (r, s')"
  obtains err result where
    "addMembers_loop env groupId members accessToken 0 [] s = ((err, result), s')"
    "r = (case err of Some e \<Rightarrow> Inl e | None \<Rightarrow> Inr result)"
    "trace s' = trace s @ since s s'"
proof -
  obtain err result where
    loop: "addMembers_loop env groupId members accessToken 0 [] s = ((err, result), s')"
    and r: "r = (case err of Some e \<Rightarrow> Inl e | None \<Rightarrow> Inr result)"
    using assms by (auto simp: addMembers_def split: prod.splits option.splits)
  from addMembers_loop_trace [OF loop] have "trace s' = trace s @ since s s'"
    by (auto simp: since_def)
  with loop r that show thesis by blast
qed


text \<open>A run of 101 members in the quiet environment: two chunks.\<close>

lemma quiet_run:
  "addMembers quiet ''g'' (replicate 101 alice) ''t'' (start 0) =
     (Inr (replicate 100 (accepted alice) @ [accepted alice]),
      \<lparr>world = 4, trace = [
         Time 0,
         Http (POST_members ''g'' (replicate 100 alice) ''t'')
           (Bulk \<lparr>status = 200, data = \<lparr>bulk_members = replicate 100 (accepted alice)\<rparr>\<rparr>),
         Time 1,
         Time 2,
         Http (POST_members ''g'' [alice] ''t'')
           (Bulk \<lparr>status = 200, data = \<lparr>bulk_members = [accepted alice]\<rparr>\<rparr>),
         Time 3]\<rparr>)"
  by (simp add: run_simps quiet_def)

section \<open>The bulk membership adder: properties\<close>

text \<open>
  C3. In a run of \<^verbatim>\<open>addMembers\<close>, a chunk whose round trip was measured (the clock
  read \<open>st\<close> before the request and \<open>et\<close> after its response) above 30000 ms raises
  the time-limit error, and nothing follows it in the trace of the run: no later chunk
  request is issued.
\<close>

theorem addMembers_time_limit:
  assumes "addMembers env groupId members accessToken s = (r, s')"
    and "since s s' = pre @ Time st # Http rq rp # Time et # post"
    and "et - st > 30000"
  shows "post = [] \<and> r = Inl (ExceedsLimit (et - st))"
proof -
  obtain err result where
    loop: "addMembers_loop env groupId members accessToken 0 [] s = ((err, result), s')"
    and r: "r = (case err of Some e \<Rightarrow> Inl e | None \<Rightarrow> Inr result)"
    using assms(1) by (auto simp: addMembers_def split: prod.splits option.splits)
  from addMembers_loop_trace [OF loop] obtain evs where "trace s' = trace s @ evs"
    by blast
  with assms(2) have "trace s' = trace s @ pre @ Time st # Http rq rp # Time et # post"
    by (simp add: since_def)
  from addMembers_loop_slow [OF loop this assms(3)] r show ?thesis
    by simp
qed

lemma slow_run:
  "addMembers slow ''g'' [alice] ''t'' (start 0) =
     (Inl (ExceedsLimit 40000),
      \<lparr>world = 2, trace = [Time 0,
         Http (POST_members ''g'' [alice] ''t'')
           (Bulk \<lparr>status = 200, data = \<lparr>bulk_members = [accepted alice]\<rparr>\<rparr>),
         Time 40000]\<rparr>)"
  by (simp add: addMembers_def addMembers_loop.simps addMembers_body_def now_def axios_def
      emit_def slow_def quiet_def start_def slice_def chunkSize_def)

theorem addMembers_time_limit_witness:
  "since (start 0) (snd (addMembers slow ''g'' [alice] ''t'' (start 0))) =
     [] @ Time 0 # Http (POST_members ''g'' [alice] ''t'')
        (Bulk \<lparr>status = 200, data = \<lparr>bulk_members = [accepted alice]\<rparr>\<rparr>) # Time 40000 # []
   \<and> (40000::int) - 0 > 30000
   \<and> fst (addMembers slow ''g'' [alice] ''t'' (start 0)) = Inl (ExceedsLimit (40000 - 0))"
  using addMembers_time_limit [of slow "''g''" "[alice]" "''t''" "start 0"
      "fst (addMembers slow ''g'' [alice] ''t'' (start 0))"
      "snd (addMembers slow ''g'' [alice] ''t'' (start 0))"
      "[]" 0 "POST_members ''g'' [alice] ''t''"
      "Bulk \<lparr>status = 200, data = \<lparr>bulk_members = [accepted alice]\<rparr>\<rparr>" 40000 "[]"]
  by (simp add: slow_run since_def)

text \<open>
  C7. In a run of \<^verbatim>\<open>addMembers\<close>, a bulk-add response whose status is not 200 raises the
  error of the status check and ends the loop: nothing follows it in the trace of the run.
  The array \<^verbatim>\<open>result\<close> is then the concatenation of the \<^verbatim>\<open>members\<close> arrays of the
  responses before it; the members of the failing response are not appended.
\<close>

theorem addMembers_status_check:
  assumes "addMembers_loop env groupId members accessToken 0 [] s = ((err, result), s')"
    and "since s s' = pre @ Http rq (Bulk resp) # post"
    and "status resp \<noteq> 200"
  shows "post = [] \<and> err = Some (FailedToAddBulk groupId (data resp)) \<and> result = added pre
    \<and> fst (addMembers env groupId members accessToken s) = Inl (FailedToAddBulk groupId (data resp))"
proof -
  from addMembers_loop_trace [OF assms(1)] assms(2) have
    "trace s' = trace s @ pre @ Http rq (Bulk resp) # post"
    by (auto simp: since_def)
  from addMembers_loop_refused [OF assms(1) this assms(3)] assms(1) show ?thesis
    by (simp add: addMembers_def)
qed

lemma refusing_run:
  "addMembers_loop (refusing 2) ''g'' (replicate 101 alice) ''t'' 0 [] (start 0) =
     ((Some (FailedToAddBulk ''g'' \<lparr>bulk_members = [accepted alice]\<rparr>),
       replicate 100 (accepted alice)),
      \<lparr>world = 3, trace = [
         Time 0,
         Http (POST_members ''g'' (replicate 100 alice) ''t'')
           (Bulk \<lparr>status = 200, data = \<lparr>bulk_members = replicate 100 (accepted alice)\<rparr>\<rparr>),
         Time 1,
         Time 2,
         Http (POST_members ''g'' [alice] ''t'')
           (Bulk \<lparr>status = 201, data = \<lparr>bulk_members = [accepted alice]\<rparr>\<rparr>)]\<rparr>)"
  by (simp add: run_simps refusing_def quiet_def)

theorem addMembers_status_check_witness:
  "since (start 0) (snd (addMembers_loop (refusing 2) ''g'' (replicate 101 alice) ''t'' 0 [] (start 0))) =
     [Time 0,
      Http (POST_members ''g'' (replicate 100 alice) ''t'')
        (Bulk \<lparr>status = 200, data = \<lparr>bulk_members = replicate 100 (accepted alice)\<rparr>\<rparr>),
      Time 1,
      Time 2]
     @ Http (POST_members ''g'' [alice] ''t'')
        (Bulk \<lparr>status = 201, data = \<lparr>bulk_members = [accepted alice]\<rparr>\<rparr>) # []
   \<and> status \<lparr>status = 201, data = \<lparr>bulk_members = [accepted alice]\<rparr>\<rparr> \<noteq> 200
   \<and> fst (addMembers_loop (refusing 2) ''g'' (replicate 101 alice) ''t'' 0 [] (start 0)) =
       (Some (FailedToAddBulk ''g'' \<lparr>bulk_members = [accepted alice]\<rparr>),
        replicate 100 (accepted alice))
   \<and> fst (addMembers (refusing 2) ''g'' (replicate 101 alice) ''t'' (start 0)) =
       Inl (FailedToAddBulk ''g'' \<lparr>bulk_members = [accepted alice]\<rparr>)"
  using addMembers_status_check [of "refusing 2" "''g''" "replicate 101 alice" "''t''" "start 0"
      "Some (FailedToAddBulk ''g'' \<lparr>bulk_members = [accepted alice]\<rparr>)"
      "replicate 100 (accepted alice)"
      "snd (addMembers_loop (refusing 2) ''g'' (replicate 101 alice) ''t'' 0 [] (start 0))"
      "[Time 0,
        Http (POST_members ''g'' (replicate 100 alice) ''t'')
          (Bulk \<lparr>status = 200, data = \<lparr>bulk_members = replicate 100 (accepted alice)\<rparr>\<rparr>),
        Time 1,
        Time 2]"
      "POST_members ''g'' [alice] ''t''"
      "\<lparr>status = 201, data = \<lparr>bulk_members = [accepted alice]\<rparr>\<rparr>" "[]"]
  by (simp add: refusing_run since_def)

text \<open>
  A request that axios rejects (a transport error, a status outside 2xx) ends the run in the
  same way, with the error of the rejection.
\<close>

lemma addMembers_rejected:
  assumes "addMembers_loop env groupId members accessToken 0 [] s = ((err, result), s')"
    and "since s s' = pre @ Http rq (Threw e) # post"
  shows "post = [] \<and> err = Some e \<and> result = added pre
    \<and> fst (addMembers env groupId members accessToken s) = Inl e"
proof -
  from addMembers_loop_trace [OF assms(1)] assms(2) have
    "trace s' = trace s @ pre @ Http rq (Threw e) # post"
    by (auto simp: since_def)
  from addMembers_loop_rejected [OF assms(1) this] assms(1) show ?thesis
    by (simp add: addMembers_def)
qed

text \<open>
  A response in time with a failed entry ends the run with the aggregate error, whose
  message is the fixed text followed by the array of the failed entries as the template
  string renders it. The checks of the status and of the time limit come first: a response
  with a failed entry that is slow as well raises the time-limit error.
\<close>

lemma addMembers_failed_entries:
  assumes "addMembers env groupId members accessToken s = (r, s')"
    and "since s s' = pre @ Time st # Http rq (Bulk resp) # Time et # post"
    and "et - st \<le> 30000"
    and "list_ex failed (bulk_members (data resp))"
  shows "post = [] \<and> status resp = 200
    \<and> r = Inl (FailedToAddSome (''Failed to add some members: '' @
          array_string (filter failed (bulk_members (data resp)))))"
proof -
  from assms(1) obtain err result where
    loop: "addMembers_loop env groupId members accessToken 0 [] s = ((err, result), s')"
    and r: "r = (case err of Some e \<Rightarrow> Inl e | None \<Rightarrow> Inr result)"
    and "trace s' = trace s @ since s s'"
    by (rule addMembers_trace)
  with assms(2) have "trace s' = trace s @ pre @ Time st # Http rq (Bulk resp) # Time et # post"
    by simp
  from addMembers_loop_partly [OF loop this assms(3,4)] r show ?thesis
    by simp
qed

lemma slow_picky_run:
  "addMembers slow_picky ''g'' [alice, bob] ''t'' (start 0) =
     (Inl (ExceedsLimit 40000),
      \<lparr>world = 2, trace = [
         Time 0,
         Http (POST_members ''g'' [alice, bob] ''t'')
           (Bulk \<lparr>status = 200, data = \<lparr>bulk_members = [accepted alice, declined bob]\<rparr>\<rparr>),
         Time 40000]\<rparr>)"
  by (simp add: run_simps slow_picky_def picky_def quiet_def alice_def bob_def)

text \<open>The message tells how many entries failed, and nothing else of them.\<close>

lemma array_string_length: "length xs = length ys \<Longrightarrow> array_string xs = array_string ys"
  by (simp add: array_string_def map_replicate_const)

text \<open>
  C4. The aggregate error does not list the failed entries. The service fails \<^verbatim>\<open>bob\<close> in
  one run and \<^verbatim>\<open>carol\<close> in another: both runs end with the same error, whose message
  shows \<^verbatim>\<open>[object Object]\<close> where the failed entry was to be listed.
\<close>

theorem addMembers_failed_unlisted:
  "addMembers picky ''g'' [alice, bob] ''t'' (start 0) =
     (Inl (FailedToAddSome ''Failed to add some members: [object Object]''),
      \<lparr>world = 2, trace = [
         Time 0,
         Http (POST_members ''g'' [alice, bob] ''t'')
           (Bulk \<lparr>status = 200, data = \<lparr>bulk_members = [accepted alice, declined bob]\<rparr>\<rparr>),
         Time 1]\<rparr>)
   \<and> addMembers picky ''g'' [alice, carol] ''t'' (start 0) =
     (Inl (FailedToAddSome ''Failed to add some members: [object Object]''),
      \<lparr>world = 2, trace = [
         Time 0,
         Http (POST_members ''g'' [alice, carol] ''t'')
           (Bulk \<lparr>status = 200, data = \<lparr>bulk_members = [accepted alice, declined carol]\<rparr>\<rparr>),
         Time 1]\<rparr>)"
  by (simp add: run_simps picky_def quiet_def alice_def bob_def carol_def)

text \<open>
  C5, as amended. For every member list of length \<open>M\<close>, the requests of a run of
  \<^verbatim>\<open>addMembers\<close> are bulk-add requests to the group, one for each chunk; each chunk has at
  most 100 members, the chunks in order are a prefix of the list, and there are at most
  \<open>\<lceil>M / 100\<rceil>\<close> of them. A run that returns normally has sent exactly \<open>\<lceil>M / 100\<rceil>\<close> chunks,
  which cover the list in order without overlap or omission.
\<close>

theorem addMembers_chunking:
  assumes "addMembers env groupId members accessToken s = (r, s')"
  shows "requests (since s s') =
      map (\<lambda>chunk. POST_members groupId chunk accessToken) (chunks (since s s'))
    \<and> (\<forall>chunk \<in> set (chunks (since s s')). length chunk \<le> 100)
    \<and> prefix (concat (chunks (since s s'))) members
    \<and> length (chunks (since s s')) \<le> (length members + 99) div 100
    \<and> ((\<exists>result. r = Inr result) \<longrightarrow>
          length (chunks (since s s')) = (length members + 99) div 100
          \<and> concat (chunks (since s s')) = members)"
proof -
  from assms obtain err result where
    loop: "addMembers_loop env groupId members accessToken 0 [] s = ((err, result), s')"
    and r: "r = (case err of Some e \<Rightarrow> Inl e | None \<Rightarrow> Inr result)"
    by (rule addMembers_trace)
  from r have "(\<exists>result. r = Inr result) \<longrightarrow> err = None"
    by (auto split: option.splits)
  with addMembers_loop_chunks [OF loop] show ?thesis
    by (auto simp: since_def)
qed

theorem addMembers_chunking_witness:
  "chunks (since (start 0) (snd (addMembers quiet ''g'' (replicate 101 alice) ''t'' (start 0)))) =
     [replicate 100 alice, [alice]]
   \<and> requests (since (start 0) (snd (addMembers quiet ''g'' (replicate 101 alice) ''t'' (start 0)))) =
     [POST_members ''g'' (replicate 100 alice) ''t'', POST_members ''g'' [alice] ''t'']
   \<and> fst (addMembers quiet ''g'' (replicate 101 alice) ''t'' (start 0)) =
     Inr (replicate 100 (accepted alice) @ [accepted alice])
   \<and> (length (replicate 101 alice) + 99) div 100 = (2::nat)
   \<and> concat [replicate 100 alice, [alice]] = replicate 101 alice"
  using addMembers_chunking [of quiet "''g''" "replicate 101 alice" "''t''" "start 0"
      "fst (addMembers quiet ''g'' (replicate 101 alice) ''t'' (start 0))"
      "snd (addMembers quiet ''g'' (replicate 101 alice) ''t'' (start 0))"]
  by (simp add: quiet_run since_def)

text \<open>
  C5 as stated fails on a run that an error ends: of 101 members, whose first chunk has a
  member that the service fails, one request is sent, not two.
\<close>

theorem addMembers_chunking_counterexample:
  "requests (trace (snd (addMembers picky ''g'' (replicate 101 bob) ''t'' (start 0)))) =
     [POST_members ''g'' (replicate 100 bob) ''t'']
   \<and> (length (replicate 101 bob) + 99) div 100 = (2::nat)"
  by (simp add: run_simps picky_def quiet_def bob_def)

text \<open>
  C10. Whenever \<^verbatim>\<open>addMembers\<close> returns normally, the list it returns is the concatenation,
  in the order of the chunks, of the \<^verbatim>\<open>members\<close> arrays of all the bulk-add responses of
  the run, and no entry of it has the status \<^verbatim>\<open>failed\<close>.
\<close>

theorem addMembers_result:
  assumes "addMembers env groupId members accessToken s = (Inr result, s')"
  shows "result = added (since s s') \<and> (\<forall>m \<in> set result. entry_status m \<noteq> ''failed'')"
proof -
  from assms obtain err result0 where
    loop: "addMembers_loop env groupId members accessToken 0 [] s = ((err, result0), s')"
    and r: "Inr result = (case err of Some e \<Rightarrow> Inl e | None \<Rightarrow> Inr result0)"
    by (rule addMembers_trace)
  from r have "err = None" "result0 = result"
    by (auto split: option.splits)
  with addMembers_loop_result [of env groupId members accessToken 0 "[]" s result s'] loop
  show ?thesis
    by (auto simp: since_def list_ex_iff failed_def)
qed

theorem addMembers_result_witness:
  "fst (addMembers quiet ''g'' (replicate 101 alice) ''t'' (start 0)) =
     Inr (replicate 100 (accepted alice) @ [accepted alice])
   \<and> replicate 100 (accepted alice) @ [accepted alice] =
     added (since (start 0) (snd (addMembers quiet ''g'' (replicate 101 alice) ''t'' (start 0))))
   \<and> \<not> failed (accepted alice)"
  using addMembers_result [of quiet "''g''" "replicate 101 alice" "''t''" "start 0"
      "replicate 100 (accepted alice) @ [accepted alice]"
      "snd (addMembers quiet ''g'' (replicate 101 alice) ''t'' (start 0))"]
  by (simp add: quiet_run)

section \<open>The directory reader: properties\<close>

lemma fetched_simps [simp]:
  "fetched [] = []" "fetched (e # evs) = fetched_of e @ fetched evs"
  "fetched (xs @ ys) = fetched xs @ fetched ys"
  by (simp_all add: fetched_def)

lemma perPages_simps [simp]:
  "perPages [] = []" "perPages (e # evs) = perPage_of e @ perPages evs"
  "perPages (xs @ ys) = perPages xs @ perPages ys"
  by (simp_all add: perPages_def)

lemma getMembers_cases:
  assumes "getMembers env page pageSize accessToken s = (r, s')"
  obtains
    (rejected) e w where "get_members env page pageSize accessToken (world s) = (Inl e, w)"
      "r = Inl e" "world s' = w"
      "trace s' = trace s @ [Http (GET_members page pageSize accessToken) (Threw e)]"
  | (served) resp w where "get_members env page pageSize accessToken (world s) = (Inr resp, w)"
      "r = Inr (data resp)" "world s' = w"
      "trace s' = trace s @ [Http (GET_members page pageSize accessToken) (Users resp)]"
proof -
  obtain x w where g: "get_members env page pageSize accessToken (world s) = (x, w)"
    by (cases "get_members env page pageSize accessToken (world s)")
  show thesis
  proof (cases x)
    case (Inl e)
    with g assms show thesis
      by (intro rejected [of e w]) (auto simp: getMembers_def axios_def emit_def)
  next
    case (Inr resp)
    with g assms show thesis
      by (intro served [of resp w]) (auto simp: getMembers_def axios_def emit_def)
  qed
qed

text \<open>One iteration: the page size it asks for, and what it leaves behind.\<close>

lemma getNMembers_body_cases:
  assumes "getNMembers_body env n accessToken members page s = (r, s')"
  obtains
    (rejected) e w where
      "get_members env page (min (n - int (length members)) 100) accessToken (world s) = (Inl e, w)"
      "r = Inl e"
      "trace s' = trace s @ [Http (GET_members page (min (n - int (length members)) 100) accessToken)
         (Threw e)]"
  | (served) resp w where
      "get_members env page (min (n - int (length members)) 100) accessToken (world s) = (Inr resp, w)"
      "r = Inr (members @ data resp, if n - int (length members) \<le> 100 then page else page + 1)"
      "trace s' = trace s @ [Http (GET_members page (min (n - int (length members)) 100) accessToken)
         (Users resp), Sleep 100]"
proof (cases "n - int (length members) \<le> 100")
  case True
  then have m: "min (n - int (length members)) 100 = n - int (length members)"
    by simp
  obtain x s1 where g: "getMembers env page (n - int (length members)) accessToken s = (x, s1)"
    by (cases "getMembers env page (n - int (length members)) accessToken s")
  from g show thesis
  proof (cases rule: getMembers_cases)
    case (rejected e w)
    with g assms True show thesis
      by (intro that(1) [of e w]) (auto simp: getNMembers_body_def maxPageSize_def m)
  next
    case (served resp w)
    with g assms True show thesis
      by (intro that(2) [of resp w])
        (auto simp: getNMembers_body_def maxPageSize_def m sleep_def emit_def)
  qed
next
  case False
  then have m: "min (n - int (length members)) 100 = 100"
    by simp
  obtain x s1 where g: "getMembers env page 100 accessToken s = (x, s1)"
    by (cases "getMembers env page 100 accessToken s")
  from g show thesis
  proof (cases rule: getMembers_cases)
    case (rejected e w)
    with g assms False show thesis
      by (intro that(1) [of e w]) (auto simp: getNMembers_body_def maxPageSize_def m)
  next
    case (served resp w)
    with g assms False show thesis
      by (intro that(2) [of resp w])
        (auto simp: getNMembers_body_def maxPageSize_def m sleep_def emit_def)
  qed
qed

lemma getNMembers_loop_exit:
  "\<not> int (length members) < n \<Longrightarrow>
   getNMembers_loop env n accessToken members page s = Some (Inr members, s)"
  by (subst getNMembers_loop.simps) simp

lemma getNMembers_loop_step:
  assumes "int (length members) < n"
    and "getNMembers_body env n accessToken members page s = (Inr (members', page'), s')"
  shows "getNMembers_loop env n accessToken members page s =
    getNMembers_loop env n accessToken members' page' s'"
  using assms by (subst getNMembers_loop.simps) simp

lemma getNMembers_loop_throw:
  assumes "int (length members) < n"
    and "getNMembers_body env n accessToken members page s = (Inl e, s')"
  shows "getNMembers_loop env n accessToken members page s = Some (Inl e, s')"
  using assms by (subst getNMembers_loop.simps) simp

text \<open>
  With pages of the size asked for, the loop ends with exactly \<open>n\<close> records: those of the
  pages it was answered, after full pages from \<open>page\<close> on and one last page of what is
  left.
\<close>

lemma full_pages_step:
  assumes "100 < d"
  shows "nat ((d - 1) div 100) = Suc (nat ((d - 100 - 1) div (100::int)))"
proof -
  have "(d - 1) div 100 = (d - 100 - 1) div 100 + 1"
  proof -
    have "d - 1 = (d - 100 - 1) + 100" by simp
    then show ?thesis by (simp only: div_add_self2)
  qed
  moreover from assms have "0 \<le> (d - 100 - 1) div 100"
    by simp
  ultimately show ?thesis by simp
qed

lemma getNMembers_loop_pages:
  assumes "exact_pages env" and "int (length members) < n"
  shows "\<exists>members' s' evs.
      getNMembers_loop env n accessToken members page s = Some (Inr members', s')
    \<and> int (length members') = n
    \<and> trace s' = trace s @ evs
    \<and> members' = members @ fetched evs
    \<and> requests evs =
        map (\<lambda>j. GET_members (page + int j) 100 accessToken)
          [0..<nat ((n - int (length members) - 1) div 100)]
        @ [GET_members (page + int (nat ((n - int (length members) - 1) div 100)))
             (n - int (length members) - 100 * int (nat ((n - int (length members) - 1) div 100)))
             accessToken]"
  using assms(2)
proof (induction "nat (n - int (length members))" arbitrary: members page s rule: less_induct)
  case less
  define d where "d = n - int (length members)"
  with less.prems have d: "0 < d" by simp
  let ?perPage = "min d 100"
  from d have range: "1 \<le> ?perPage" "?perPage \<le> 100"
    by simp_all
  with assms(1) obtain resp w where
    page: "get_members env page ?perPage accessToken (world s) = (Inr resp, w)"
      "int (length (data resp)) = ?perPage"
    unfolding exact_pages_def by blast
  obtain r s1 where body: "getNMembers_body env n accessToken members page s = (r, s1)"
    by (cases "getNMembers_body env n accessToken members page s")
  from body page(1) have
    r: "r = Inr (members @ data resp, if d \<le> 100 then page else page + 1)"
    and t1: "trace s1 = trace s @ [Http (GET_members page ?perPage accessToken) (Users resp), Sleep 100]"
    unfolding d_def by (cases rule: getNMembers_body_cases; simp)+
  note step = getNMembers_loop_step [OF less.prems body [unfolded r]]
  show ?case
  proof (cases "d \<le> 100")
    case True
    with page(2) have len: "int (length (members @ data resp)) = n"
      by (simp add: d_def)
    then have "getNMembers_loop env n accessToken (members @ data resp) page s1 =
        Some (Inr (members @ data resp), s1)"
      by (simp add: getNMembers_loop_exit)
    with step True have
      "getNMembers_loop env n accessToken members page s = Some (Inr (members @ data resp), s1)"
      by simp
    moreover from True d have "nat ((d - 1) div 100) = 0"
      by simp
    ultimately show ?thesis
      using len t1 True unfolding d_def [symmetric]
      by (intro exI [of _ "members @ data resp"] exI [of _ s1]
          exI [of _ "[Http (GET_members page ?perPage accessToken) (Users resp), Sleep 100]"])
        simp
  next
    case False
    with page(2) have len: "int (length (members @ data resp)) = int (length members) + 100"
      by simp
    with False have lt: "int (length (members @ data resp)) < n"
      and less: "nat (n - int (length (members @ data resp))) < nat (n - int (length members))"
      by (simp_all add: d_def)
    have d': "n - int (length (members @ data resp)) = d - 100"
      using len by (simp add: d_def)
    from less.hyps [OF less lt, of "page + 1" s1, unfolded d'] obtain members' s' evs where
      rest: "getNMembers_loop env n accessToken (members @ data resp) (page + 1) s1 =
          Some (Inr members', s')"
        "int (length members') = n"
        "trace s' = trace s1 @ evs"
        "members' = (members @ data resp) @ fetched evs"
        "requests evs =
          map (\<lambda>j. GET_members (page + 1 + int j) 100 accessToken)
            [0..<nat ((d - 100 - 1) div 100)]
          @ [GET_members (page + 1 + int (nat ((d - 100 - 1) div 100)))
               (d - 100 - 100 * int (nat ((d - 100 - 1) div 100))) accessToken]"
      by blast
    define q' where "q' = nat ((d - 100 - 1) div 100)"
    from False have q: "nat ((d - 1) div 100) = Suc q'"
      unfolding q'_def by (intro full_pages_step) simp
    let ?evs = "Http (GET_members page ?perPage accessToken) (Users resp) # Sleep 100 # evs"
    from step False rest(1) have
      run: "getNMembers_loop env n accessToken members page s = Some (Inr members', s')"
      by simp
    have tr: "trace s' = trace s @ ?evs"
      using t1 rest(3) by simp
    have got: "members' = members @ fetched ?evs"
      using rest(4) by simp
    have "map (\<lambda>j. GET_members (page + int j) 100 accessToken) [0..<Suc q'] =
        GET_members page 100 accessToken
        # map (\<lambda>j. GET_members (page + 1 + int j) 100 accessToken) [0..<q']"
      by (simp add: map_upt_Suc add.assoc del: upt_Suc)
    moreover have "page + int (Suc q') = page + 1 + int q'"
      "d - 100 * int (Suc q') = d - 100 - 100 * int q'"
      by simp_all
    ultimately have asked: "requests ?evs =
        map (\<lambda>j. GET_members (page + int j) 100 accessToken) [0..<Suc q']
        @ [GET_members (page + int (Suc q')) (d - 100 * int (Suc q')) accessToken]"
      using rest(5) False unfolding q'_def [symmetric] by simp
    show ?thesis
      using run rest(2) tr got asked unfolding d_def [symmetric] q
      by blast
  qed
qed

text \<open>With pages that are never empty, the loop ends.\<close>

lemma getNMembers_loop_returns:
  assumes "nonempty_pages env"
  shows "\<exists>r. getNMembers_loop env n accessToken members page s = Some r"
proof (induction "nat (n - int (length members))" arbitrary: members page s rule: less_induct)
  case less
  show ?case
  proof (cases "int (length members) < n")
    case False
    then show ?thesis
      by (simp add: getNMembers_loop_exit)
  next
    case True
    obtain r s1 where body: "getNMembers_body env n accessToken members page s = (r, s1)"
      by (cases "getNMembers_body env n accessToken members page s")
    from body show ?thesis
    proof (cases rule: getNMembers_body_cases)
      case (rejected e w)
      with getNMembers_loop_throw [OF True body [unfolded rejected(2)]] show ?thesis
        by simp
    next
      case (served resp w)
      from True have "1 \<le> min (n - int (length members)) 100"
        "min (n - int (length members)) 100 \<le> 100"
        by simp_all
      with served(1) assms have "data resp \<noteq> []"
        unfolding nonempty_pages_def by blast
      with True have
        "nat (n - int (length (members @ data resp))) < nat (n - int (length members))"
        by (cases "data resp") auto
      from less.hyps [OF this]
        getNMembers_loop_step [OF True body [unfolded served(2)]]
      show ?thesis by simp
    qed
  qed
qed

lemma getNMembers_body_grows:
  assumes "nonempty_pages env" and "int (length members) < n"
    and "getNMembers_body env n accessToken members page s = (Inr (members', page'), s')"
  shows "length members < length members'"
  using assms(3)
proof (cases rule: getNMembers_body_cases)
  case (rejected e w)
  then show ?thesis by simp
next
  case (served resp w)
  from assms(2) have "1 \<le> min (n - int (length members)) 100"
    "min (n - int (length members)) 100 \<le> 100"
    by simp_all
  with served(1) assms(1) have "data resp \<noteq> []"
    unfolding nonempty_pages_def by blast
  with served(2) show ?thesis by simp
qed

text \<open>With pages that are always empty, a loop that has begun does not end.\<close>

lemma getNMembers_loop_spins:
  assumes "getNMembers_loop env n accessToken members page s = Some y"
    and "empty_pages env"
  shows "\<not> int (length members) < n"
proof -
  have "empty_pages env \<longrightarrow> \<not> int (length members) < n"
  proof (rule getNMembers_loop.raw_induct [where
        P = "\<lambda>env n accessToken members page s y. empty_pages env \<longrightarrow> \<not> int (length members) < n",
        OF _ assms(1)])
    fix loop :: "'a env \<Rightarrow> int \<Rightarrow> string \<Rightarrow> user list \<Rightarrow> int \<Rightarrow> 'a sys
      \<Rightarrow> ((error + user list) \<times> 'a sys) option"
    fix env n accessToken members page s y
    assume IH: "\<And>env n accessToken members page s y.
        loop env n accessToken members page s = Some y \<Longrightarrow>
        empty_pages env \<longrightarrow> \<not> int (length members) < n"
      and unfold: "(if int (length members) < n then
          (case getNMembers_body env n accessToken members page s of
             (Inl e, s') \<Rightarrow> Some (Inl e, s')
           | (Inr (members', page'), s') \<Rightarrow> loop env n accessToken members' page' s')
        else Some (Inr members, s)) = Some y"
    show "empty_pages env \<longrightarrow> \<not> int (length members) < n"
    proof (intro impI notI)
      assume empty: "empty_pages env" and lt: "int (length members) < n"
      obtain r s1 where body: "getNMembers_body env n accessToken members page s = (r, s1)"
        by (cases "getNMembers_body env n accessToken members page s")
      from empty obtain resp w where
        "get_members env page (min (n - int (length members)) 100) accessToken (world s) =
          (Inr resp, w)"
        "data resp = []"
        unfolding empty_pages_def by blast
      with body obtain page' where r: "r = Inr (members, page')"
        by (cases rule: getNMembers_body_cases) auto
      with unfold lt body have "loop env n accessToken members page' s1 = Some y"
        by simp
      from IH [OF this] empty lt show False by simp
    qed
  qed
  with assms(2) show ?thesis by simp
qed

text \<open>
  The loop from the start is the loop from any state it reaches, and a starved loop does
  not end.
\<close>

lemma getNMembers_at_loop:
  assumes "getNMembers_at k env n accessToken members page s = Some (members', page', s')"
  shows "getNMembers_loop env n accessToken members page s =
    getNMembers_loop env n accessToken members' page' s'"
  using assms
proof (induction k arbitrary: members page s)
  case 0
  then show ?case by simp
next
  case (Suc k)
  show ?case
  proof (cases "int (length members) < n")
    case False
    with Suc.prems show ?thesis by simp
  next
    case True
    obtain r s1 where body: "getNMembers_body env n accessToken members page s = (r, s1)"
      by (cases "getNMembers_body env n accessToken members page s")
    show ?thesis
    proof (cases r)
      case (Inl e)
      with True body Suc.prems show ?thesis by simp
    next
      case (Inr nxt)
      obtain members1 page1 where nxt: "nxt = (members1, page1)"
        by (cases nxt)
      with Inr True body Suc.prems have
        "getNMembers_at k env n accessToken members1 page1 s1 = Some (members', page', s')"
        by simp
      from Suc.IH [OF this]
        getNMembers_loop_step [OF True body [unfolded Inr nxt]]
      show ?thesis by simp
    qed
  qed
qed

lemma starved_next:
  assumes "starved env accessToken page diff" and "100 < diff"
  shows "starved env accessToken (page + 1) diff"
  using assms unfolding starved_def by auto

lemma getNMembers_loop_starved:
  assumes "getNMembers_loop env n accessToken members page s = Some y"
  shows "\<not> (int (length members) < n
    \<and> starved env accessToken page (n - int (length members)))"
proof (rule getNMembers_loop.raw_induct [where
      P = "\<lambda>env n accessToken members page s y.
        \<not> (int (length members) < n \<and> starved env accessToken page (n - int (length members)))",
      OF _ assms])
  fix loop :: "'a env \<Rightarrow> int \<Rightarrow> string \<Rightarrow> user list \<Rightarrow> int \<Rightarrow> 'a sys
    \<Rightarrow> ((error + user list) \<times> 'a sys) option"
  fix env n accessToken members page s y
  assume IH: "\<And>env n accessToken members page s y.
      loop env n accessToken members page s = Some y \<Longrightarrow>
      \<not> (int (length members) < n \<and> starved env accessToken page (n - int (length members)))"
    and unfold: "(if int (length members) < n then
        (case getNMembers_body env n accessToken members page s of
           (Inl e, s') \<Rightarrow> Some (Inl e, s')
         | (Inr (members', page'), s') \<Rightarrow> loop env n accessToken members' page' s')
      else Some (Inr members, s)) = Some y"
  show "\<not> (int (length members) < n \<and> starved env accessToken page (n - int (length members)))"
  proof
    assume *: "int (length members) < n \<and> starved env accessToken page (n - int (length members))"
    then have lt: "int (length members) < n"
      and starved: "starved env accessToken page (n - int (length members))"
      by simp_all
    obtain r s1 where body: "getNMembers_body env n accessToken members page s = (r, s1)"
      by (cases "getNMembers_body env n accessToken members page s")
    from starved obtain resp w where
      "get_members env page (min (n - int (length members)) 100) accessToken (world s) =
        (Inr resp, w)"
      "data resp = []"
      unfolding starved_def by blast
    with body have
      r: "r = Inr (members, if n - int (length members) \<le> 100 then page else page + 1)"
      by (cases rule: getNMembers_body_cases) auto
    let ?page = "if n - int (length members) \<le> 100 then page else page + 1"
    from r unfold lt body have "loop env n accessToken members ?page s1 = Some y"
      by simp
    moreover from starved have "starved env accessToken ?page (n - int (length members))"
      by (simp add: starved_next)
    ultimately show False
      using IH [of env n accessToken members ?page s1 y] lt by simp
  qed
qed

lemma getNMembers_upto_capped:
  "\<exists>evs. trace (getNMembers_upto k env n accessToken members page s) = trace s @ evs
     \<and> (\<forall>perPage \<in> set (perPages evs). perPage \<le> 100)"
proof (induction k arbitrary: members page s)
  case 0
  show ?case by simp
next
  case (Suc k)
  show ?case
  proof (cases "int (length members) < n")
    case False
    then show ?thesis by simp
  next
    case True
    obtain r s1 where body: "getNMembers_body env n accessToken members page s = (r, s1)"
      by (cases "getNMembers_body env n accessToken members page s")
    from body show ?thesis
    proof (cases rule: getNMembers_body_cases)
      case (rejected e w)
      with True body show ?thesis by simp
    next
      case (served resp w)
      let ?members = "members @ data resp"
      let ?page = "if n - int (length members) \<le> 100 then page else page + 1"
      from Suc.IH [of ?members ?page s1] obtain evs where
        "trace (getNMembers_upto k env n accessToken ?members ?page s1) = trace s1 @ evs"
        "\<forall>perPage \<in> set (perPages evs). perPage \<le> 100"
        by blast
      with True body served show ?thesis by simp
    qed
  qed
qed

text \<open>The state in which the loop returns is its state after some number of iterations.\<close>

lemma getNMembers_loop_upto:
  assumes "getNMembers_loop env n accessToken members page s = Some y"
  shows "\<exists>k. snd y = getNMembers_upto k env n accessToken members page s"
proof (rule getNMembers_loop.raw_induct [where
      P = "\<lambda>env n accessToken members page s y.
        \<exists>k. snd y = getNMembers_upto k env n accessToken members page s",
      OF _ assms])
  fix loop :: "'a env \<Rightarrow> int \<Rightarrow> string \<Rightarrow> user list \<Rightarrow> int \<Rightarrow> 'a sys
    \<Rightarrow> ((error + user list) \<times> 'a sys) option"
  fix env n accessToken members page s y
  assume IH: "\<And>env n accessToken members page s y.
      loop env n accessToken members page s = Some y \<Longrightarrow>
      \<exists>k. snd y = getNMembers_upto k env n accessToken members page s"
    and unfold: "(if int (length members) < n then
        (case getNMembers_body env n accessToken members page s of
           (Inl e, s') \<Rightarrow> Some (Inl e, s')
         | (Inr (members', page'), s') \<Rightarrow> loop env n accessToken members' page' s')
      else Some (Inr members, s)) = Some y"
  show "\<exists>k. snd y = getNMembers_upto k env n accessToken members page s"
  proof (cases "int (length members) < n")
    case False
    with unfold have "snd y = getNMembers_upto 0 env n accessToken members page s"
      by auto
    then show ?thesis ..
  next
    case True
    obtain r s1 where body: "getNMembers_body env n accessToken members page s = (r, s1)"
      by (cases "getNMembers_body env n accessToken members page s")
    show ?thesis
    proof (cases r)
      case (Inl e)
      with True body unfold have "snd y = getNMembers_upto (Suc 0) env n accessToken members page s"
        by auto
      then show ?thesis ..
    next
      case (Inr nxt)
      obtain members' page' where "nxt = (members', page')"
        by (cases nxt)
      with Inr True body unfold have "loop env n accessToken members' page' s1 = Some y"
        and r: "r = Inr (members', page')"
        by simp_all
      from IH [OF this(1)] obtain k where
        "snd y = getNMembers_upto k env n accessToken members' page' s1"
        by blast
      with True body r have "snd y = getNMembers_upto (Suc k) env n accessToken members page s"
        by simp
      then show ?thesis ..
    qed
  qed
qed


lemmas read_simps = getNMembers_def getNMembers_body_def getMembers_def axios_def emit_def
  sleep_def start_def maxPageSize_def Let_def


lemma nonempty_pages_quiet: "nonempty_pages quiet"
  by (auto simp: nonempty_pages_def quiet_def)

lemma empty_pages_barren: "empty_pages barren"
  by (simp add: empty_pages_def barren_def quiet_def)

lemma quiet_read:
  "getNMembers quiet 250 ''t'' (start 0) =
     Some (Inr (replicate 250 \<lparr>userId = ''7''\<rparr>),
       \<lparr>world = 0, trace = [
          Http (GET_members 1 100 ''t'')
            (Users \<lparr>status = 200, data = replicate 100 \<lparr>userId = ''7''\<rparr>\<rparr>),
          Sleep 100,
          Http (GET_members 2 100 ''t'')
            (Users \<lparr>status = 200, data = replicate 100 \<lparr>userId = ''7''\<rparr>\<rparr>),
          Sleep 100,
          Http (GET_members 3 50 ''t'')
            (Users \<lparr>status = 200, data = replicate 50 \<lparr>userId = ''7''\<rparr>\<rparr>),
          Sleep 100]\<rparr>)"
  by (simp add: read_simps getNMembers_loop.simps quiet_def replicate_add [symmetric])

lemma quiet_upto:
  "getNMembers_upto 2 quiet 250 ''t'' [] 1 (start 0) =
     \<lparr>world = 0, trace = [
        Http (GET_members 1 100 ''t'')
          (Users \<lparr>status = 200, data = replicate 100 \<lparr>userId = ''7''\<rparr>\<rparr>),
        Sleep 100,
        Http (GET_members 2 100 ''t'')
          (Users \<lparr>status = 200, data = replicate 100 \<lparr>userId = ''7''\<rparr>\<rparr>),
        Sleep 100]\<rparr>"
  by (simp add: read_simps quiet_def numeral_2_eq_2)


text \<open>
  C2. When every page request gets exactly as many records as its \<^verbatim>\<open>perPage\<close> asks for,
  \<^verbatim>\<open>getNMembers\<close> returns, for every \<open>n \<ge> 1\<close>, a list of exactly \<open>n\<close> records, whether
  or not \<open>n\<close> is a multiple of 100. The list is the concatenation, in order, of the
  pages that the directory answered, and the requests are those of the pages 1, 2, ... with
  100 records each, as long as more than 100 records are missing, and of one last page
  with the count that is left.
\<close>

theorem getNMembers_exact:
  assumes "exact_pages env" and "1 \<le> n"
  shows "\<exists>members s'. getNMembers env n accessToken s = Some (Inr members, s')
    \<and> int (length members) = n
    \<and> members = fetched (since s s')
    \<and> requests (since s s') =
        map (\<lambda>j. GET_members (1 + int j) 100 accessToken) [0..<nat ((n - 1) div 100)]
        @ [GET_members (1 + int (nat ((n - 1) div 100)))
             (n - 100 * int (nat ((n - 1) div 100))) accessToken]"
proof -
  from assms(2) have "int (length ([] :: user list)) < n"
    by simp
  from getNMembers_loop_pages [OF assms(1) this, of accessToken 1 s] show ?thesis
    by (auto simp: getNMembers_def since_def)
qed

lemma exact_pages_paged: "exact_pages paged"
  by (simp add: exact_pages_def paged_def quiet_def)

lemma paged_read:
  "getNMembers paged 101 ''t'' (start 0) =
     Some (Inr (map (\<lambda>i. \<lparr>userId = decimal i\<rparr>) [0..<100] @ [\<lparr>userId = decimal 1\<rparr>]),
       \<lparr>world = 0, trace = [
          Http (GET_members 1 100 ''t'')
            (Users \<lparr>status = 200, data = map (\<lambda>i. \<lparr>userId = decimal i\<rparr>) [0..<100]\<rparr>),
          Sleep 100,
          Http (GET_members 2 1 ''t'') (Users \<lparr>status = 200, data = [\<lparr>userId = decimal 1\<rparr>]\<rparr>),
          Sleep 100]\<rparr>)"
  by (simp add: read_simps getNMembers_loop.simps paged_def quiet_def)

theorem getNMembers_exact_witness:
  "exact_pages paged \<and> (1::int) \<le> 101
   \<and> fst (the (getNMembers paged 101 ''t'' (start 0))) =
       Inr (map (\<lambda>i. \<lparr>userId = decimal i\<rparr>) [0..<100] @ [\<lparr>userId = decimal 1\<rparr>])
   \<and> int (length (map (\<lambda>i. \<lparr>userId = decimal i\<rparr>) [0..<100] @ [\<lparr>userId = decimal 1\<rparr>])) = 101
   \<and> fetched (since (start 0) (snd (the (getNMembers paged 101 ''t'' (start 0))))) =
       map (\<lambda>i. \<lparr>userId = decimal i\<rparr>) [0..<100] @ [\<lparr>userId = decimal 1\<rparr>]
   \<and> requests (since (start 0) (snd (the (getNMembers paged 101 ''t'' (start 0))))) =
       [GET_members 1 100 ''t'', GET_members 2 1 ''t'']"
  using getNMembers_exact [of paged 101 "''t''" "start 0"]
  by (simp add: exact_pages_paged paged_read since_def)

text \<open>
  C8. Every page request that \<^verbatim>\<open>getNMembers\<close> issues has a \<^verbatim>\<open>perPage\<close> of at most 100:
  in the trace of a run after any number \<open>k\<close> of iterations of the loop (so also of a run
  that never returns), and in the trace of a run that has returned.
\<close>

theorem getNMembers_page_cap:
  "(\<forall>perPage \<in> set (perPages (since s (getNMembers_upto k env n accessToken [] 1 s))). perPage \<le> 100)
   \<and> (getNMembers env n accessToken s = Some (r, s') \<longrightarrow>
        (\<forall>perPage \<in> set (perPages (since s s')). perPage \<le> 100))"
proof -
  have capped: "\<forall>perPage \<in> set (perPages (since s (getNMembers_upto k env n accessToken [] 1 s))).
      perPage \<le> 100" for k
    using getNMembers_upto_capped [of k env n accessToken "[]" 1 s]
    by (auto simp: since_def)
  show ?thesis
  proof (intro conjI impI)
    show "\<forall>perPage \<in> set (perPages (since s (getNMembers_upto k env n accessToken [] 1 s))).
      perPage \<le> 100"
      by (rule capped)
  next
    assume "getNMembers env n accessToken s = Some (r, s')"
    then obtain k' where "s' = getNMembers_upto k' env n accessToken [] 1 s"
      using getNMembers_loop_upto [of env n accessToken "[]" 1 s "(r, s')"]
      by (auto simp: getNMembers_def)
    with capped [of k'] show "\<forall>perPage \<in> set (perPages (since s s')). perPage \<le> 100"
      by simp
  qed
qed

theorem getNMembers_page_cap_witness:
  "perPages (since (start 0) (getNMembers_upto 2 quiet 250 ''t'' [] 1 (start 0))) = [100, 100]
   \<and> perPages (since (start 0) (snd (the (getNMembers quiet 250 ''t'' (start 0))))) = [100, 100, 50]"
  using getNMembers_page_cap [of "start 0" 2 quiet 250 "''t''"
      "fst (the (getNMembers quiet 250 ''t'' (start 0)))"
      "snd (the (getNMembers quiet 250 ''t'' (start 0)))"]
  by (simp add: quiet_read quiet_upto since_def)

text \<open>
  C9, as amended. When every page that arrives has at least one record, \<^verbatim>\<open>getNMembers\<close>
  returns for every \<open>n\<close> (with the list, or with the error of a rejected request), and
  every iteration of the loop that goes on leaves \<^verbatim>\<open>members\<close> strictly longer. Without
  that precondition the loop does not end once the empty answers last: if a run reaches,
  after any number \<open>k\<close> of iterations, a state with records still missing in which the
  loop is starved, \<^verbatim>\<open>getNMembers\<close> never returns; so it is for every \<open>n \<ge> 1\<close> when every
  page arrives empty.
\<close>

theorem getNMembers_terminates:
  "(nonempty_pages env \<longrightarrow>
      (\<exists>r. getNMembers env n accessToken s = Some r)
      \<and> (\<forall>members page s members' page' s'.
            int (length members) < n \<longrightarrow>
            getNMembers_body env n accessToken members page s = (Inr (members', page'), s') \<longrightarrow>
            length members < length members'))
   \<and> (getNMembers_at k env n accessToken [] 1 s = Some (members, page, s')
        \<and> int (length members) < n
        \<and> starved env accessToken page (n - int (length members)) \<longrightarrow>
      getNMembers env n accessToken s = None)
   \<and> (empty_pages env \<and> 1 \<le> n \<longrightarrow> getNMembers env n accessToken s = None)"
proof (intro conjI impI allI)
  assume "nonempty_pages env"
  then show "\<exists>r. getNMembers env n accessToken s = Some r"
    unfolding getNMembers_def by (rule getNMembers_loop_returns)
next
  fix members page s members' page' s'
  assume "nonempty_pages env" "int (length members) < n"
    "getNMembers_body env n accessToken members page s = (Inr (members', page'), s')"
  then show "length members < length members'"
    by (rule getNMembers_body_grows)
next
  assume *: "getNMembers_at k env n accessToken [] 1 s = Some (members, page, s')
    \<and> int (length members) < n \<and> starved env accessToken page (n - int (length members))"
  then have "getNMembers_at k env n accessToken [] 1 s = Some (members, page, s')"
    by simp
  from getNMembers_at_loop [OF this] have eq: "getNMembers env n accessToken s =
      getNMembers_loop env n accessToken members page s'"
    by (simp add: getNMembers_def)
  show "getNMembers env n accessToken s = None"
  proof (cases "getNMembers_loop env n accessToken members page s'")
    case None
    with eq show ?thesis by simp
  next
    case (Some y)
    from getNMembers_loop_starved [OF this] * show ?thesis by simp
  qed
next
  assume *: "empty_pages env \<and> 1 \<le> n"
  show "getNMembers env n accessToken s = None"
  proof (cases "getNMembers env n accessToken s")
    case None
    then show ?thesis .
  next
    case (Some y)
    then have "getNMembers_loop env n accessToken [] 1 s = Some y"
      by (simp add: getNMembers_def)
    from getNMembers_loop_spins [OF this] * show ?thesis by simp
  qed
qed

lemma short_at:
  "getNMembers_at (Suc 0) short 150 ''t'' [] 1 (start 0) =
     Some (replicate 100 \<lparr>userId = ''7''\<rparr>, 2,
       \<lparr>world = 0, trace = [
          Http (GET_members 1 100 ''t'')
            (Users \<lparr>status = 200, data = replicate 100 \<lparr>userId = ''7''\<rparr>\<rparr>),
          Sleep 100]\<rparr>)"
  by (simp add: read_simps short_def quiet_def)

lemma starved_short: "starved short ''t'' 2 50"
  by (simp add: starved_def short_def quiet_def)

theorem getNMembers_terminates_witness:
  "nonempty_pages quiet
   \<and> getNMembers quiet 250 ''t'' (start 0) \<noteq> None
   \<and> getNMembers_at (Suc 0) short 150 ''t'' [] 1 (start 0) =
       Some (replicate 100 \<lparr>userId = ''7''\<rparr>, 2,
         \<lparr>world = 0, trace = [
            Http (GET_members 1 100 ''t'')
              (Users \<lparr>status = 200, data = replicate 100 \<lparr>userId = ''7''\<rparr>\<rparr>),
            Sleep 100]\<rparr>)
   \<and> int (length (replicate 100 \<lparr>userId = ''7''\<rparr>)) < 150
   \<and> starved short ''t'' 2 (150 - int (length (replicate 100 \<lparr>userId = ''7''\<rparr>)))
   \<and> getNMembers short 150 ''t'' (start 0) = None
   \<and> empty_pages barren \<and> (1::int) \<le> 1
   \<and> getNMembers barren 1 ''t'' (start 0) = None"
  using getNMembers_terminates [of quiet 250 "''t''" "start 0"]
    getNMembers_terminates [of short 150 "''t''" "start 0" "Suc 0" "replicate 100 \<lparr>userId = ''7''\<rparr>" 2
      "\<lparr>world = 0, trace = [
          Http (GET_members 1 100 ''t'')
            (Users \<lparr>status = 200, data = replicate 100 \<lparr>userId = ''7''\<rparr>\<rparr>),
          Sleep 100]\<rparr>"]
    getNMembers_terminates [of barren 1 "''t''" "start 0"]
  by (simp add: nonempty_pages_quiet empty_pages_barren short_at starved_short
      del: getNMembers_at.simps)

text \<open>
  C9 as stated fails on a run with one empty page that asking again makes up for: the
  loop asks again, and returns once the next answer has brought the record.
\<close>

theorem getNMembers_terminates_counterexample:
  "getNMembers hesitant 1 ''t'' (start 0) =
     Some (Inr [\<lparr>userId = ''7''\<rparr>],
       \<lparr>world = 2, trace = [
          Http (GET_members 1 1 ''t'') (Users \<lparr>status = 200, data = []\<rparr>),
          Sleep 100,
          Http (GET_members 1 1 ''t'') (Users \<lparr>status = 200, data = [\<lparr>userId = ''7''\<rparr>]\<rparr>),
          Sleep 100]\<rparr>)"
  by (simp add: read_simps getNMembers_loop.simps hesitant_def quiet_def)

section \<open>The script: properties\<close>



lemmas script_simps = main_def main_try_def main_finally_def token_def groupApiHealthCheck_def
  createTestGroup_def patchTestGroup_def deleteTestGroup_def uuid_def missing_def

lemma decimal_sample: "decimal 12345678 = ''12345678''"
  by (simp add: decimal.simps)


text \<open>
  C1. The test group is not always deleted: when POST /groups has answered 200 with the
  id \<^verbatim>\<open>g\<close> and the PATCH of \<^verbatim>\<open>oldId\<close> is rejected, \<^verbatim>\<open>createTestGroup\<close> throws before
  the \<^verbatim>\<open>try\<close> block of \<^verbatim>\<open>main\<close> is entered, and the run ends without a DELETE request.
\<close>

theorem main_leaks_group:
  "main unpatched (start 0) =
     (Inl (Rejected ''Request failed with status code 500''),
      \<lparr>world = 0, trace = [
         Http (GET_health ''t'') (Health \<lparr>status = 200, data = ()\<rparr>),
         Http (POST_groups ''TestGroup-u'' ''t'') (Group \<lparr>status = 200, data = \<lparr>group_id = ''g''\<rparr>\<rparr>),
         Http (PATCH_group ''g'' ''u'' ''t'')
           (Threw (Rejected ''Request failed with status code 500''))]\<rparr>)"
  by (simp add: script_simps run_simps unpatched_def quiet_def numeral_2_eq_2 decimal_sample)


end
